theory Spec2Isabelle
  imports Complex_Main "HOL-Library.Char_ord" "HOL-Library.List_Lexorder"
begin

text \<open>
  The aggregation and ranking core of the ticker dashboard, embedded function by
  function: \<open>startOfMonthUTC\<close>, \<open>isInMonth\<close>, \<open>getAvailableMonths\<close>,
  \<open>buildMonthAgg\<close>, \<open>getYahooChart\<close>, \<open>localYMD\<close>, \<open>monthFirstYMD\<close>,
  \<open>pickStartIndex\<close>, \<open>fetchBasisAndLatest\<close>, \<open>mapLimit\<close> and
  \<open>computeGainers\<close>. What the host provides (the clock, the network, \<open>Date.parse\<close>
  and the date formatter) is a parameter or an input of the embedding.
\<close>

section \<open>JavaScript values used by the ticker dashboard\<close>

text \<open>
  A JavaScript number is an IEEE double. The embedding keeps its four kinds of value
  apart and abstracts the finite ones by the reals: rounding is not modelled, and there
  is one zero. Nothing below depends on rounding: timestamps are integers, prices are
  only compared and selected, and the percentage is only ordered.
\<close>

datatype jsnum = NaN | NInf | Fin real | PInf

text \<open>The relational operators \<open><\<close>, \<open>>\<close> and \<open><=\<close> of the language: false on NaN.\<close>

fun js_lt :: "jsnum \<Rightarrow> jsnum \<Rightarrow> bool" where
  "js_lt (Fin a) (Fin b) = (a < b)"
| "js_lt NInf (Fin b) = True"
| "js_lt NInf PInf = True"
| "js_lt (Fin a) PInf = True"
| "js_lt _ _ = False"

definition js_gt :: "jsnum \<Rightarrow> jsnum \<Rightarrow> bool" where
  "js_gt a b = js_lt b a"

fun js_le :: "jsnum \<Rightarrow> jsnum \<Rightarrow> bool" where
  "js_le NaN _ = False"
| "js_le _ NaN = False"
| "js_le a b = (\<not> js_lt b a)"

text \<open>\<open>x || ""\<close> on an optional string: a missing or empty value gives the empty string.\<close>

definition or_empty :: "string option \<Rightarrow> string" where
  "or_empty x = (case x of None \<Rightarrow> [] | Some s \<Rightarrow> s)"

text \<open>
  \<open>String.prototype.toUpperCase\<close> on ASCII text, where a character is a byte: the
  letters a..z move to A..Z and every other character stays.
\<close>

definition upper_char :: "char \<Rightarrow> char" where
  "upper_char c = (let n = (of_char c :: nat) in
     if 97 \<le> n \<and> n \<le> 122 then char_of (n - 32) else c)"

definition toUpperCase :: "string \<Rightarrow> string" where
  "toUpperCase s = map upper_char s"

section \<open>Dates (the built-in Date object, UTC getters)\<close>

definition msPerDay :: int where
  "msPerDay = 86400000"

text \<open>ToIntegerOrInfinity on a finite number: truncation towards zero.\<close>

definition trunc :: "real \<Rightarrow> int" where
  "trunc r = (if 0 \<le> r then \<lfloor>r\<rfloor> else \<lceil>r\<rceil>)"

text \<open>
  \<open>new Date(x)\<close> holds a time value: an integer number of milliseconds of absolute
  value at most 8.64e15, or NaN (an invalid date), here \<open>None\<close>.
\<close>

definition newDate :: "jsnum \<Rightarrow> int option" where
  "newDate x = (case x of
       Fin r \<Rightarrow> (if \<bar>r\<bar> \<le> 8640000000000000 then Some (trunc r) else None)
     | _ \<Rightarrow> None)"

text \<open>
  The proleptic Gregorian calendar of the language standard. \<open>Day\<close>,
  \<open>DayFromYear\<close>, \<open>DayWithinYear\<close>, the leap-year test and the month table of
  \<open>MonthFromTime\<close> are the standard's own definitions. The standard defines
  \<open>YearFromTime(t)\<close> as the largest year that starts at or before \<open>t\<close>; here it is
  computed by the usual closed form over 400-year eras, counted from 1 March.
\<close>

definition Day :: "int \<Rightarrow> int" where
  "Day t = t div msPerDay"

definition DayFromYear :: "int \<Rightarrow> int" where
  "DayFromYear y = 365 * (y - 1970) + (y - 1969) div 4 - (y - 1901) div 100 + (y - 1601) div 400"

definition InLeapYear :: "int \<Rightarrow> int" where
  "InLeapYear y = (if y mod 4 \<noteq> 0 then 0 else if y mod 100 \<noteq> 0 then 1
                   else if y mod 400 \<noteq> 0 then 0 else 1)"

definition year_of_day :: "int \<Rightarrow> int" where
  "year_of_day z =
     (let z1 = z + 719468;
          era = z1 div 146097;
          doe = z1 - era * 146097;
          yoe = (doe - doe div 1460 + doe div 36524 - doe div 146096) div 365;
          doy = doe - (365 * yoe + yoe div 4 - yoe div 100)
      in (if doy < 306 then yoe + era * 400 else yoe + era * 400 + 1))"

text \<open>
  The number of days from 1 March of the year 0 to 1 March of the year \<open>Y\<close>, used to
  relate \<open>year_of_day\<close> to \<open>DayFromYear\<close>.
\<close>

definition march_days :: "int \<Rightarrow> int" where
  "march_days Y = 365 * Y + Y div 4 - Y div 100 + Y div 400"

definition YearFromTime :: "int \<Rightarrow> int" where
  "YearFromTime t = year_of_day (Day t)"

definition DayWithinYear :: "int \<Rightarrow> int" where
  "DayWithinYear t = Day t - DayFromYear (YearFromTime t)"

definition MonthFromTime :: "int \<Rightarrow> int" where
  "MonthFromTime t =
     (let d = DayWithinYear t; l = InLeapYear (YearFromTime t) in
      if d < 31 then 0
      else if d < 59 + l then 1
      else if d < 90 + l then 2
      else if d < 120 + l then 3
      else if d < 151 + l then 4
      else if d < 181 + l then 5
      else if d < 212 + l then 6
      else if d < 243 + l then 7
      else if d < 273 + l then 8
      else if d < 304 + l then 9
      else if d < 334 + l then 10
      else 11)"

text \<open>
  \<open>MakeDay(year, month, 1)\<close> for a month 0..11: the day number of the first day of
  that month.
\<close>

definition days_from_civil :: "int \<Rightarrow> int \<Rightarrow> int" where
  "days_from_civil y m =
     DayFromYear y +
     (let l = InLeapYear y in
      if m = 0 then 0
      else if m = 1 then 31
      else if m = 2 then 59 + l
      else if m = 3 then 90 + l
      else if m = 4 then 120 + l
      else if m = 5 then 151 + l
      else if m = 6 then 181 + l
      else if m = 7 then 212 + l
      else if m = 8 then 243 + l
      else if m = 9 then 273 + l
      else if m = 10 then 304 + l
      else 334 + l)"

definition getUTCFullYear :: "int option \<Rightarrow> int option" where
  "getUTCFullYear d = map_option YearFromTime d"

definition getUTCMonth :: "int option \<Rightarrow> int option" where
  "getUTCMonth d = map_option MonthFromTime d"

text \<open>
  \<open>Date.UTC(year, month, 1, 0, 0, 0, 0)\<close>: a year 0..99 after truncation means
  1900 + year, months outside 0..11 carry into the year, and the result is clipped to
  the range of time values.
\<close>

definition Date_UTC :: "jsnum \<Rightarrow> jsnum \<Rightarrow> jsnum" where
  "Date_UTC year month = (case (year, month) of
       (Fin y, Fin m) \<Rightarrow>
         (let yi = trunc y;
              yr = (if 0 \<le> yi \<and> yi \<le> 99 then 1900 + yi else yi);
              mi = trunc m;
              ym = yr + mi div 12;
              mn = mi mod 12;
              t = days_from_civil ym mn * msPerDay
          in if \<bar>t\<bar> \<le> 8640000000000000 then Fin (of_int t) else NaN)
     | _ \<Rightarrow> NaN)"

text \<open>\<open>month - 1\<close> on a number.\<close>

fun js_pred :: "jsnum \<Rightarrow> jsnum" where
  "js_pred (Fin m) = Fin (m - 1)"
| "js_pred x = x"

definition startOfMonthUTC :: "jsnum \<Rightarrow> jsnum \<Rightarrow> jsnum" where
  "startOfMonthUTC year month = Date_UTC year (js_pred month)"

text \<open>Strict equality of two getter results: NaN equals nothing.\<close>

definition getter_eq :: "int option \<Rightarrow> int option \<Rightarrow> bool" where
  "getter_eq a b = (case (a, b) of (Some x, Some y) \<Rightarrow> x = y | _ \<Rightarrow> False)"

definition isInMonth :: "jsnum \<Rightarrow> jsnum \<Rightarrow> bool" where
  "isInMonth tsMs monthStartMs =
     (let d = newDate tsMs; m0 = newDate monthStartMs
      in getter_eq (getUTCFullYear d) (getUTCFullYear m0)
         \<and> getter_eq (getUTCMonth d) (getUTCMonth m0))"

section \<open>Mention records and the month aggregation\<close>

text \<open>
  A record of the store. The code reads the timestamp only through \<open>Date.parse\<close>, so
  the field holds that result: the epoch milliseconds, or NaN when the text does not
  parse. A missing ticker, link, user, id or name is \<open>None\<close>.
\<close>

record user =
  user_id :: "string option"
  user_name :: "string option"

record entry =
  ticker :: "string option"
  timestamp :: jsnum
  link :: "string option"
  user :: "user option"

record agg =
  countMTD :: nat
  firstTs :: jsnum
  firstLink :: string
  firstUserId :: string
  firstUserName :: string
  lastTs :: jsnum
  lastLink :: string

text \<open>
  A JavaScript \<open>Map\<close> keeps its keys in insertion order and holds each key once: an
  association list, where \<open>set\<close> on a present key replaces the value in place.
\<close>

fun map_set :: "('k \<times> 'v) list \<Rightarrow> 'k \<Rightarrow> 'v \<Rightarrow> ('k \<times> 'v) list" where
  "map_set [] k v = [(k, v)]"
| "map_set ((k', v') # m) k v =
     (if k' = k then (k, v) # m else (k', v') # map_set m k v)"

definition fresh_agg :: agg where
  "fresh_agg = \<lparr>countMTD = 0, firstTs = PInf, firstLink = [], firstUserId = [],
     firstUserName = [], lastTs = Fin (- 1), lastLink = []\<rparr>"

definition user_id_of :: "entry \<Rightarrow> string" where
  "user_id_of e = (case user e of None \<Rightarrow> [] | Some u \<Rightarrow> or_empty (user_id u))"

definition user_name_of :: "entry \<Rightarrow> string" where
  "user_name_of e = (case user e of None \<Rightarrow> [] | Some u \<Rightarrow> or_empty (user_name u))"

text \<open>The symbol of a record: \<open>e.ticker?.toUpperCase()\<close>, skipped when missing or empty.\<close>

definition sym_of :: "entry \<Rightarrow> string option" where
  "sym_of e = (case ticker e of
       None \<Rightarrow> None
     | Some t \<Rightarrow> (let s = toUpperCase t in if s = [] then None else Some s))"

definition bump :: "agg \<Rightarrow> entry \<Rightarrow> agg" where
  "bump cur e =
     (let ts = timestamp e;
          c1 = cur\<lparr>countMTD := countMTD cur + 1\<rparr>;
          c2 = (if js_lt ts (firstTs c1)
                then c1\<lparr>firstTs := ts, firstLink := or_empty (link e),
                        firstUserId := user_id_of e, firstUserName := user_name_of e\<rparr>
                else c1);
          c3 = (if js_gt ts (lastTs c2)
                then c2\<lparr>lastTs := ts, lastLink := or_empty (link e)\<rparr>
                else c2)
      in c3)"

definition agg_step :: "(string \<times> agg) list \<Rightarrow> entry \<Rightarrow> (string \<times> agg) list" where
  "agg_step byTicker e = (case sym_of e of
       None \<Rightarrow> byTicker
     | Some s \<Rightarrow>
         (let cur = (case map_of byTicker s of Some c \<Rightarrow> c | None \<Rightarrow> fresh_agg)
          in map_set byTicker s (bump cur e)))"

record user_count =
  uc_name :: string
  uc_count :: nat

definition user_step ::
  "(string \<times> user_count) list \<Rightarrow> string \<times> agg \<Rightarrow> (string \<times> user_count) list" where
  "user_step firstByUserCounts kv =
     (let v = snd kv in
      if firstUserId v = [] then firstByUserCounts
      else
        (let e0 = (case map_of firstByUserCounts (firstUserId v) of
                     Some e \<Rightarrow> e
                   | None \<Rightarrow> \<lparr>uc_name = firstUserName v, uc_count = 0\<rparr>);
             e1 = e0\<lparr>uc_count := uc_count e0 + 1\<rparr>;
             e2 = (if uc_name e1 = [] \<and> firstUserName v \<noteq> []
                   then e1\<lparr>uc_name := firstUserName v\<rparr> else e1)
         in map_set firstByUserCounts (firstUserId v) e2))"

text \<open>
  \<open>buildMonthAgg(entries, selectedMonth)\<close>. The month key is split at the hyphen and
  each part converted by \<open>Number\<close>; the embedding takes the two numbers, \<open>year\<close> and
  \<open>month\<close>, that this yields (NaN for a part that is missing or not numeric).
\<close>

definition in_month :: "jsnum \<Rightarrow> jsnum \<Rightarrow> entry \<Rightarrow> bool" where
  "in_month year month e = isInMonth (timestamp e) (startOfMonthUTC year month)"

definition buildMonthAgg ::
  "entry list \<Rightarrow> jsnum \<Rightarrow> jsnum \<Rightarrow> (string \<times> agg) list \<times> (string \<times> user_count) list" where
  "buildMonthAgg entries year month =
     (let mtd = filter (in_month year month) entries;
          byTicker = foldl agg_step [] mtd;
          firstByUserCounts = foldl user_step [] byTicker
      in (byTicker, firstByUserCounts))"

text \<open>
  The normalisation that the specification describes (trim, then uppercase), written
  from its words to be compared with \<open>sym_of\<close>: the code itself never trims.
\<close>

definition is_space :: "char \<Rightarrow> bool" where
  "is_space c = (c \<in> set [CHR '' '', CHR 0x09, CHR 0x0A, CHR 0x0B, CHR 0x0C, CHR 0x0D])"

definition trim_spec :: "string \<Rightarrow> string" where
  "trim_spec s = rev (dropWhile is_space (rev (dropWhile is_space s)))"

definition normalize_spec :: "string \<Rightarrow> string" where
  "normalize_spec t = toUpperCase (trim_spec t)"

text \<open>Two notions used to state the properties of the aggregation.\<close>

definition count_of :: "(string \<times> agg) list \<Rightarrow> string \<Rightarrow> nat" where
  "count_of m k = (case map_of m k of None \<Rightarrow> 0 | Some a \<Rightarrow> countMTD a)"

definition ordered_agg :: "agg \<Rightarrow> bool" where
  "ordered_agg a = (\<exists>f l. firstTs a = Fin f \<and> lastTs a = Fin l \<and> f \<le> l)"


section \<open>The months present in the store\<close>

text \<open>
  \<open>String(n)\<close> of an integer (years and months are far below the size where the
  language switches to exponent notation): decimal digits, with a minus sign when
  negative. NaN prints as \<open>NaN\<close>.
\<close>

definition digit_char :: "nat \<Rightarrow> char" where
  "digit_char n = char_of (48 + n)"

function show_digits :: "int \<Rightarrow> string" where
  "show_digits n =
     (if n < 10 then [digit_char (nat n)]
      else show_digits (n div 10) @ [digit_char (nat (n mod 10))])"
  by pat_completeness auto
termination
  by (relation "measure nat") auto

declare show_digits.simps [simp del]

definition show_int :: "int \<Rightarrow> string" where
  "show_int i = (if i < 0 then CHR ''-'' # show_digits (- i) else show_digits i)"

definition js_string :: "int option \<Rightarrow> string" where
  "js_string x = (case x of None \<Rightarrow> ''NaN'' | Some i \<Rightarrow> show_int i)"

text \<open>\<open>s.padStart(2, "0")\<close>.\<close>

definition padStart2 :: "string \<Rightarrow> string" where
  "padStart2 s = replicate (2 - length s) (CHR ''0'') @ s"

text \<open>The key that the loop of \<open>getAvailableMonths\<close> builds for one record.\<close>

definition month_key :: "entry \<Rightarrow> string" where
  "month_key e =
     (let d = newDate (timestamp e);
          year = getUTCFullYear d;
          month = padStart2 (js_string (map_option (\<lambda>m. m + 1) (getUTCMonth d)))
      in js_string year @ ''-'' @ month)"

text \<open>A \<open>Set\<close> keeps its members in insertion order, each once.\<close>

definition set_add :: "'a list \<Rightarrow> 'a \<Rightarrow> 'a list" where
  "set_add s x = (if x \<in> set s then s else s @ [x])"

text \<open>
  \<open>a.localeCompare(b)\<close> on the keys. Keys consist of digits, the hyphen and the
  letters of \<open>NaN\<close>; on such text the collation compares character by character with
  hyphen before digits before letters, which is the order of the character codes.
\<close>

definition localeCompare :: "string \<Rightarrow> string \<Rightarrow> jsnum" where
  "localeCompare a b = (if a < b then Fin (- 1) else if a = b then Fin 0 else Fin 1)"

text \<open>
  \<open>Array.prototype.sort(cmp)\<close>: a stable sort; \<open>x\<close> goes behind \<open>y\<close> exactly when
  \<open>cmp(x, y) > 0\<close>, and a NaN result counts as 0. For a comparator that is a total
  preorder the result of a stable sort is unique, and it is the one of this insertion sort.
\<close>

fun insert_cmp :: "('a \<Rightarrow> 'a \<Rightarrow> jsnum) \<Rightarrow> 'a \<Rightarrow> 'a list \<Rightarrow> 'a list" where
  "insert_cmp cmp x [] = [x]"
| "insert_cmp cmp x (y # ys) =
     (if js_gt (cmp x y) (Fin 0) then y # insert_cmp cmp x ys else x # y # ys)"

definition js_sort :: "('a \<Rightarrow> 'a \<Rightarrow> jsnum) \<Rightarrow> 'a list \<Rightarrow> 'a list" where
  "js_sort cmp xs = foldr (insert_cmp cmp) xs []"

definition getAvailableMonths :: "entry list \<Rightarrow> string list" where
  "getAvailableMonths entries =
     (let months = foldl (\<lambda>months e. set_add months (month_key e)) [] entries
      in js_sort (\<lambda>a b. localeCompare b a) months)"

text \<open>
  For stating that a list of keys runs from the newest month to the oldest: the key of
  year \<open>y\<close> and month \<open>m\<close> (1..12), the records whose UTC year has four digits, and
  the order of months.
\<close>

definition key_of_month :: "int \<times> int \<Rightarrow> string" where
  "key_of_month ym = show_int (fst ym) @ ''-'' @ padStart2 (show_int (snd ym))"

definition plain_year :: "entry \<Rightarrow> bool" where
  "plain_year e = (case getUTCFullYear (newDate (timestamp e)) of
       None \<Rightarrow> False
     | Some y \<Rightarrow> 1000 \<le> y \<and> y \<le> 9999)"

definition plain_month :: "int \<times> int \<Rightarrow> bool" where
  "plain_month p = (1000 \<le> fst p \<and> fst p \<le> 9999 \<and> 1 \<le> snd p \<and> snd p \<le> 12)"

definition later_month :: "int \<times> int \<Rightarrow> int \<times> int \<Rightarrow> bool" where
  "later_month a b = (fst b < fst a \<or> (fst b = fst a \<and> snd b < snd a))"

definition newest_first :: "string list \<Rightarrow> bool" where
  "newest_first ks = (\<exists>ms. ks = map key_of_month ms \<and> sorted_wrt later_month ms)"

section \<open>Price series\<close>

text \<open>Arithmetic on numbers, with the infinities and NaN of the language.\<close>

fun js_neg :: "jsnum \<Rightarrow> jsnum" where
  "js_neg NaN = NaN"
| "js_neg NInf = PInf"
| "js_neg PInf = NInf"
| "js_neg (Fin a) = Fin (- a)"

fun js_add :: "jsnum \<Rightarrow> jsnum \<Rightarrow> jsnum" where
  "js_add NaN _ = NaN"
| "js_add _ NaN = NaN"
| "js_add (Fin a) (Fin b) = Fin (a + b)"
| "js_add PInf NInf = NaN"
| "js_add NInf PInf = NaN"
| "js_add PInf _ = PInf"
| "js_add NInf _ = NInf"
| "js_add (Fin a) b = b"

definition js_sub :: "jsnum \<Rightarrow> jsnum \<Rightarrow> jsnum" where
  "js_sub a b = js_add a (js_neg b)"

fun js_mul :: "jsnum \<Rightarrow> jsnum \<Rightarrow> jsnum" where
  "js_mul NaN _ = NaN"
| "js_mul _ NaN = NaN"
| "js_mul (Fin a) (Fin b) = Fin (a * b)"
| "js_mul (Fin a) PInf = (if a = 0 then NaN else if 0 < a then PInf else NInf)"
| "js_mul (Fin a) NInf = (if a = 0 then NaN else if 0 < a then NInf else PInf)"
| "js_mul PInf (Fin b) = (if b = 0 then NaN else if 0 < b then PInf else NInf)"
| "js_mul NInf (Fin b) = (if b = 0 then NaN else if 0 < b then NInf else PInf)"
| "js_mul PInf PInf = PInf"
| "js_mul NInf NInf = PInf"
| "js_mul PInf NInf = NInf"
| "js_mul NInf PInf = NInf"

text \<open>Division; the one zero of the embedding divides like \<open>+0\<close>.\<close>

fun js_div :: "jsnum \<Rightarrow> jsnum \<Rightarrow> jsnum" where
  "js_div NaN _ = NaN"
| "js_div _ NaN = NaN"
| "js_div (Fin a) (Fin b) =
     (if b \<noteq> 0 then Fin (a / b) else if 0 < a then PInf else if a < 0 then NInf else NaN)"
| "js_div (Fin a) _ = Fin 0"
| "js_div PInf (Fin b) = (if 0 \<le> b then PInf else NInf)"
| "js_div NInf (Fin b) = (if 0 \<le> b then NInf else PInf)"
| "js_div _ _ = NaN"

fun js_floor :: "jsnum \<Rightarrow> jsnum" where
  "js_floor (Fin a) = Fin (of_int \<lfloor>a\<rfloor>)"
| "js_floor x = x"

text \<open>\<open>Math.max\<close> of two numbers.\<close>

fun js_max :: "jsnum \<Rightarrow> jsnum \<Rightarrow> jsnum" where
  "js_max NaN _ = NaN"
| "js_max _ NaN = NaN"
| "js_max a b = (if js_lt a b then b else a)"

text \<open>A number in a condition or on the left of \<open>||\<close>: NaN and 0 are falsy.\<close>

fun truthy :: "jsnum \<Rightarrow> bool" where
  "truthy NaN = False"
| "truthy (Fin a) = (a \<noteq> 0)"
| "truthy _ = True"

text \<open>
  A value of a price array or of the response's metadata: a number, \<open>null\<close> or
  \<open>undefined\<close> (the response is JSON, and its price fields hold numbers and nulls).
\<close>

datatype jsval = Undefined | Null | Number jsnum

text \<open>\<open>v != null\<close>, the global \<open>isFinite(v)\<close>, \<open>v > 0\<close> and \<open>a ?? b\<close>.\<close>

fun not_null :: "jsval \<Rightarrow> bool" where
  "not_null Undefined = False"
| "not_null Null = False"
| "not_null (Number n) = True"

fun isFinite :: "jsval \<Rightarrow> bool" where
  "isFinite Undefined = False"
| "isFinite Null = True"
| "isFinite (Number (Fin a)) = True"
| "isFinite (Number n) = False"

fun positive :: "jsval \<Rightarrow> bool" where
  "positive (Number n) = js_gt n (Fin 0)"
| "positive v = False"

definition nullish_or :: "jsval \<Rightarrow> jsval \<Rightarrow> jsval" where
  "nullish_or a b = (if not_null a then a else b)"

text \<open>\<open>xs[i]\<close>: \<open>undefined\<close> beyond the end.\<close>

definition js_nth :: "jsval list \<Rightarrow> nat \<Rightarrow> jsval" where
  "js_nth xs i = (if i < length xs then xs ! i else Undefined)"

datatype error =
  HttpError | YahooNA string | ParseFail string | TypeError | RangeError
  | BadStartPrices | BadLatestPrice

record chart =
  timestamps :: "jsnum list"
  opens :: "jsval list"
  closes :: "jsval list"
  lastClose :: jsval
  lastPrice :: jsval
  tz :: string

text \<open>
  The payload \<open>data.chart.result[0]\<close> of a response. A field that should hold an
  array is missing (or otherwise falsy), an array, or some other truthy value of the
  parsed JSON; for the latter the first flag tells whether its \<open>length\<close> is truthy
  and the second whether it can be iterated (a string can, a number, a boolean or an
  object cannot). The time-zone name is empty when missing.
\<close>

datatype 'a jsfield = Absent | Other bool bool | Array "'a list"

record yahoo_result =
  r_timestamp :: "jsval jsfield"
  r_open :: "jsval jsfield"
  r_close :: "jsval jsfield"
  r_adjclose :: "jsval jsfield"
  r_regularMarketPrice :: jsval
  r_exchangeTimezoneName :: string

text \<open>\<open>s * 1000\<close> on an element of the timestamp array.\<close>

fun times1000 :: "jsval \<Rightarrow> jsnum" where
  "times1000 Undefined = NaN"
| "times1000 Null = Fin 0"
| "times1000 (Number n) = js_mul n (Fin 1000)"

definition usable :: "jsval \<Rightarrow> bool" where
  "usable v = (not_null v \<and> isFinite v)"

text \<open>
  The range bucket of \<open>getYahooChart\<close>. \<open>now1\<close> and \<open>now2\<close> are the two readings
  of the clock, in the order in which the expression takes them.
\<close>

definition elapsed_days :: "int \<Rightarrow> int \<Rightarrow> jsnum \<Rightarrow> jsnum" where
  "elapsed_days now1 now2 fromTsMs =
     js_max (Fin 1) (js_floor (js_div
       (js_sub (Fin (of_int now1)) (if truthy fromTsMs then fromTsMs else Fin (of_int now2)))
       (Fin 86400000)))"

definition range_of_days :: "jsnum \<Rightarrow> string" where
  "range_of_days days =
     (if js_le days (Fin 30) then ''1mo''
      else if js_le days (Fin 62) then ''3mo''
      else if js_le days (Fin 370) then ''1y''
      else ''5y'')"

definition chart_range :: "int \<Rightarrow> int \<Rightarrow> jsnum \<Rightarrow> string" where
  "chart_range now1 now2 fromTsMs = range_of_days (elapsed_days now1 now2 fromTsMs)"

definition cacheKey :: "string \<Rightarrow> string \<Rightarrow> string" where
  "cacheKey symbol rng = symbol @ ''|'' @ rng"

text \<open>
  The body of \<open>getYahooChart\<close> after the response has arrived: the steps from
  \<open>data?.chart?.result?.[0]\<close> to the object that is cached and returned.
\<close>

definition parse_chart :: "string \<Rightarrow> yahoo_result option \<Rightarrow> error + chart" where
  "parse_chart symbol data = (case data of
       None \<Rightarrow> Inl (YahooNA symbol)
     | Some r \<Rightarrow>
        (case r_timestamp r of
           Other _ _ \<Rightarrow> Inl TypeError
         | tsf \<Rightarrow>
            (let ts = map times1000 (case tsf of Array xs \<Rightarrow> xs | _ \<Rightarrow> []);
                 closes0 = (case r_close r of Absent \<Rightarrow> Array [] | c \<Rightarrow> c);
                 opens0 = (case r_open r of Absent \<Rightarrow> Array [] | c \<Rightarrow> c);
                 closes_empty = (case closes0 of Array xs \<Rightarrow> xs = []
                                 | Other has_length _ \<Rightarrow> \<not> has_length
                                 | Absent \<Rightarrow> True);
                 closes1 = (if closes_empty \<and> r_adjclose r \<noteq> Absent then r_adjclose r else closes0)
             in (case (closes1, opens0) of
                   (Other _ False, _) \<Rightarrow> Inl TypeError
                 | (Array cs, Array os) \<Rightarrow>
                     (let lastClose0 = (case find usable (rev cs) of Some v \<Rightarrow> v | None \<Rightarrow> Undefined);
                          lastPrice0 = nullish_or (r_regularMarketPrice r) lastClose0;
                          tz0 = (if r_exchangeTimezoneName r = [] then ''America/New_York''
                                 else r_exchangeTimezoneName r)
                      in Inr \<lparr>timestamps = ts, opens = os, closes = cs, lastClose = lastClose0,
                              lastPrice = lastPrice0, tz = tz0\<rparr>)
                 | _ \<Rightarrow> Inl (ParseFail symbol)))))"

text \<open>
  \<open>getYahooChart(symbol, fromTsMs)\<close> with the module's \<open>chartCache\<close> passed in and
  returned. \<open>http\<close> stands for the request: for a symbol and a range it fails or
  yields the payload, if the response has one.
\<close>

type_synonym cache = "string \<Rightarrow> chart option"
type_synonym http = "string \<Rightarrow> string \<Rightarrow> error + yahoo_result option"

definition getYahooChart ::
  "http \<Rightarrow> int \<Rightarrow> int \<Rightarrow> cache \<Rightarrow> string \<Rightarrow> jsnum \<Rightarrow> (error + chart) \<times> cache" where
  "getYahooChart http now1 now2 chartCache symbol fromTsMs =
     (let rng = chart_range now1 now2 fromTsMs;
          key = cacheKey symbol rng
      in case chartCache key of
           Some ch \<Rightarrow> (Inr ch, chartCache)
         | None \<Rightarrow>
            (case http symbol rng of
               Inl err \<Rightarrow> (Inl err, chartCache)
             | Inr data \<Rightarrow>
                (case parse_chart symbol data of
                   Inl err \<Rightarrow> (Inl err, chartCache)
                 | Inr out \<Rightarrow> (Inr out, chartCache(key \<mapsto> out)))))"

text \<open>
  The date formatter of the host (\<open>Intl.DateTimeFormat\<close>, locale en-CA, with a time
  zone): for a zone name and a time value the year, month and day as text, or nothing
  when the zone name is rejected (a RangeError). Formatting an invalid date is a
  RangeError too. en-CA writes a date as year-month-day.
\<close>

type_synonym intl = "string \<Rightarrow> int \<Rightarrow> (string \<times> string \<times> string) option"

definition localYMD :: "intl \<Rightarrow> jsnum \<Rightarrow> string \<Rightarrow> error + string" where
  "localYMD fmt ts zone = (case newDate ts of
       None \<Rightarrow> Inl RangeError
     | Some t \<Rightarrow> (case fmt zone t of
          None \<Rightarrow> Inl RangeError
        | Some (y, m, d) \<Rightarrow> Inr (y @ ''-'' @ m @ ''-'' @ d)))"

text \<open>
  \<open>monthFirstYMD\<close>: the formatter always yields the year and month parts it is asked
  for, so the fallbacks to the numbers \<open>year\<close> and \<open>month\<close> are never taken.
\<close>

definition monthFirstYMD :: "intl \<Rightarrow> string \<Rightarrow> jsnum \<Rightarrow> jsnum \<Rightarrow> error + string" where
  "monthFirstYMD fmt zone year month = (case newDate (startOfMonthUTC year month) of
       None \<Rightarrow> Inl RangeError
     | Some t \<Rightarrow> (case fmt zone t of
          None \<Rightarrow> Inl RangeError
        | Some (y, m, d) \<Rightarrow> Inr (y @ ''-'' @ m @ ''-01'')))"

definition zone_of :: "chart \<Rightarrow> string" where
  "zone_of ch = (if tz ch = [] then ''America/New_York'' else tz ch)"

definition targetYMD :: "intl \<Rightarrow> chart \<Rightarrow> string \<Rightarrow> jsnum \<Rightarrow> jsnum \<Rightarrow> jsnum \<Rightarrow> error + string" where
  "targetYMD fmt ch anchor mentionTs year month =
     (if anchor = ''month'' then monthFirstYMD fmt (zone_of ch) year month
      else localYMD fmt mentionTs (zone_of ch))"

text \<open>The loop of \<open>pickStartIndex\<close> from index \<open>i\<close> on; \<open>- 1\<close> when it finds nothing.\<close>

fun scan_dates :: "intl \<Rightarrow> string \<Rightarrow> string \<Rightarrow> jsnum list \<Rightarrow> nat \<Rightarrow> error + int" where
  "scan_dates fmt zone target [] i = Inr (- 1)"
| "scan_dates fmt zone target (t # ts) i = (case localYMD fmt t zone of
       Inl e \<Rightarrow> Inl e
     | Inr ymd \<Rightarrow> (if target \<le> ymd then Inr (int i) else scan_dates fmt zone target ts (Suc i)))"

definition pickStartIndex ::
  "intl \<Rightarrow> chart \<Rightarrow> string \<Rightarrow> jsnum \<Rightarrow> jsnum \<Rightarrow> jsnum \<Rightarrow> error + nat" where
  "pickStartIndex fmt ch anchor mentionTs year month =
     (case targetYMD fmt ch anchor mentionTs year month of
        Inl e \<Rightarrow> Inl e
      | Inr target \<Rightarrow>
         (case scan_dates fmt (zone_of ch) target (timestamps ch) 0 of
            Inl e \<Rightarrow> Inl e
          | Inr idx \<Rightarrow> Inr (if idx = - 1 then 0 else nat idx)))"

text \<open>
  The two gap-filling loops of \<open>fetchBasisAndLatest\<close>: the value at \<open>idx\<close>, replaced
  by the first usable value at or after \<open>idx\<close> when it is null or not finite itself.
\<close>

fun scan_usable :: "jsval list \<Rightarrow> jsval \<Rightarrow> jsval" where
  "scan_usable [] start = start"
| "scan_usable (x # xs) start = (if not_null x \<and> isFinite x then x else scan_usable xs start)"

definition gap_fill :: "jsval list \<Rightarrow> nat \<Rightarrow> jsval" where
  "gap_fill xs idx =
     (let start = js_nth xs idx in
      if \<not> not_null start \<or> \<not> isFinite start then scan_usable (drop idx xs) start else start)"

record basis_latest =
  basis :: jsval
  latest :: jsval

text \<open>\<open>fetchBasisAndLatest\<close> from the series on (after the awaited fetch).\<close>

definition resolve_on :: "intl \<Rightarrow> chart \<Rightarrow> string \<Rightarrow> string \<Rightarrow> jsnum \<Rightarrow> jsnum \<Rightarrow> jsnum \<Rightarrow>
    error + basis_latest" where
  "resolve_on fmt ch anchor mode mentionTs year month =
     (case pickStartIndex fmt ch anchor mentionTs year month of
        Inl e \<Rightarrow> Inl e
      | Inr idx \<Rightarrow>
         (let startOpen = gap_fill (opens ch) idx;
              startClose = gap_fill (closes ch) idx
          in if \<not> positive startOpen \<and> \<not> positive startClose then Inl BadStartPrices
             else if \<not> positive (lastPrice ch) \<and> \<not> positive (lastClose ch) then Inl BadLatestPrice
             else Inr \<lparr>basis = (if mode = ''cc'' then nullish_or startClose startOpen
                                 else nullish_or startOpen startClose),
                        latest = (if mode = ''cc'' then nullish_or (lastClose ch) (lastPrice ch)
                                  else nullish_or (lastPrice ch) (lastClose ch))\<rparr>))"

record opts =
  opt_anchor :: "string option"
  opt_mode :: "string option"

text \<open>The defaults of the options: \<open>{ anchor = "mention", mode = "oc" } = opts || {}\<close>.\<close>

definition anchor_of :: "opts option \<Rightarrow> string" where
  "anchor_of options = (case options of
       None \<Rightarrow> ''mention''
     | Some p \<Rightarrow> (case opt_anchor p of None \<Rightarrow> ''mention'' | Some a \<Rightarrow> a))"

definition mode_of :: "opts option \<Rightarrow> string" where
  "mode_of options = (case options of
       None \<Rightarrow> ''oc''
     | Some p \<Rightarrow> (case opt_mode p of None \<Rightarrow> ''oc'' | Some m \<Rightarrow> m))"

definition fetchBasisAndLatest ::
  "intl \<Rightarrow> http \<Rightarrow> int \<Rightarrow> int \<Rightarrow> cache \<Rightarrow> string \<Rightarrow> jsnum \<Rightarrow> opts option \<Rightarrow> jsnum \<Rightarrow> jsnum \<Rightarrow>
     (error + basis_latest) \<times> cache" where
  "fetchBasisAndLatest fmt http now1 now2 chartCache symbol mentionTs options year month =
     (let anchor = anchor_of options;
          mode = mode_of options;
          fromTsMs = (if anchor = ''month'' then startOfMonthUTC year month else mentionTs)
      in case getYahooChart http now1 now2 chartCache symbol fromTsMs of
           (Inl e, c) \<Rightarrow> (Inl e, c)
         | (Inr ch, c) \<Rightarrow> (resolve_on fmt ch anchor mode mentionTs year month, c))"

text \<open>
  The range bucket as the specification words it, to be compared with
  \<open>chart_range\<close>: elapsed days = max(1, floor((now - fromTimestamp) / 1 day)), then
  one of four buckets.
\<close>

definition spec_elapsed_days :: "int \<Rightarrow> real \<Rightarrow> int" where
  "spec_elapsed_days now fromTimestamp = max 1 \<lfloor>(of_int now - fromTimestamp) / 86400000\<rfloor>"

definition spec_range :: "int \<Rightarrow> string" where
  "spec_range days =
     (if days \<le> 30 then ''1mo'' else if days \<le> 62 then ''3mo''
      else if days \<le> 370 then ''1y'' else ''5y'')"

text \<open>
  For the resolver: whether the series' day at index \<open>i\<close> is on or after the target
  date, and the price array that a mode reads.
\<close>

definition on_or_after :: "intl \<Rightarrow> chart \<Rightarrow> string \<Rightarrow> nat \<Rightarrow> bool" where
  "on_or_after fmt ch target i = (case localYMD fmt (timestamps ch ! i) (zone_of ch) of
       Inl e \<Rightarrow> False
     | Inr ymd \<Rightarrow> target \<le> ymd)"

definition field_of :: "string \<Rightarrow> chart \<Rightarrow> jsval list" where
  "field_of mode ch = (if mode = ''cc'' then closes ch else opens ch)"

definition other_field :: "string \<Rightarrow> chart \<Rightarrow> jsval list" where
  "other_field mode ch = (if mode = ''cc'' then opens ch else closes ch)"

text \<open>
  The basis candidate of a price array, in the words of the specification: the value at
  the nearest index at or after \<open>idx\<close> that holds a finite, non-null value (the index
  itself when its value is finite); and when no index at or after \<open>idx\<close> holds such
  a value, what the array has at \<open>idx\<close> (\<open>undefined\<close> beyond its end).
\<close>

definition candidate_at :: "jsval list \<Rightarrow> nat \<Rightarrow> jsval \<Rightarrow> bool" where
  "candidate_at xs idx v \<longleftrightarrow>
     (\<exists>j. idx \<le> j \<and> j < length xs \<and> usable (xs ! j) \<and>
          (\<forall>i. idx \<le> i \<and> i < j \<longrightarrow> \<not> usable (xs ! i)) \<and> v = xs ! j) \<or>
     ((\<forall>j. idx \<le> j \<and> j < length xs \<longrightarrow> \<not> usable (xs ! j)) \<and> v = js_nth xs idx)"

section \<open>The bounded-concurrency map and the ranking\<close>

text \<open>
  \<open>mapLimit(items, limit, worker)\<close> as a transition system. The state holds the
  variables of the closure: the next index \<open>i\<close>, the counter \<open>active\<close>, the array
  \<open>results\<close> (created with empty slots) and whether the promise has been resolved;
  \<open>pending\<close> lists the indices whose worker has been started and has not settled yet.
  A worker is an async function, so a call of it never throws; \<open>outcome idx\<close> is what
  \<open>worker(items[idx], idx)\<close> settles with: a rejection, or a value (\<open>None\<close> is
  \<open>null\<close>).
\<close>

datatype 'r slot = Empty | Filled "'r option"

record 'r pool =
  next_i :: nat
  active :: nat
  pending :: "nat list"
  results :: "'r slot list"
  resolved :: bool

text \<open>The function \<open>next\<close>: start workers while \<open>active < limit && i < items.length\<close>.\<close>

function launch :: "nat \<Rightarrow> int \<Rightarrow> 'r pool \<Rightarrow> 'r pool" where
  "launch n limit s =
     (if int (active s) < limit \<and> next_i s < n
      then launch n limit
             (s\<lparr>next_i := Suc (next_i s), active := Suc (active s),
                pending := pending s @ [next_i s]\<rparr>)
      else s)"
  by pat_completeness auto
termination
  by (relation "measure (\<lambda>(n, limit, s). n - next_i s)") auto

declare launch.simps [simp del]

text \<open>
  The worker of index \<open>idx\<close> settles: \<open>then\<close> stores its value, \<open>catch\<close> stores
  \<open>null\<close>, and \<open>finally\<close> decrements \<open>active\<close> and either resolves the promise
  with \<open>results\<close> or calls \<open>next\<close>.
\<close>

definition settle :: "nat \<Rightarrow> int \<Rightarrow> (nat \<Rightarrow> error + 'r option) \<Rightarrow> nat \<Rightarrow> 'r pool \<Rightarrow> 'r pool" where
  "settle n limit outcome idx s =
     (let s1 = s\<lparr>results := (results s)[idx := Filled (case outcome idx of Inr res \<Rightarrow> res | Inl e \<Rightarrow> None)],
                 active := active s - 1,
                 pending := removeAll idx (pending s)\<rparr>
      in if n \<le> next_i s1 \<and> active s1 = 0 then s1\<lparr>resolved := True\<rparr> else launch n limit s1)"

definition pool_start :: "nat \<Rightarrow> int \<Rightarrow> 'r pool" where
  "pool_start n limit =
     launch n limit \<lparr>next_i = 0, active = 0, pending = [], results = replicate n Empty, resolved = False\<rparr>"

text \<open>The states that a call can reach: workers settle one at a time, in any order.\<close>

inductive pool_run :: "nat \<Rightarrow> int \<Rightarrow> (nat \<Rightarrow> error + 'r option) \<Rightarrow> 'r pool \<Rightarrow> bool"
  for n limit outcome where
  start: "pool_run n limit outcome (pool_start n limit)"
| step: "pool_run n limit outcome s \<Longrightarrow> idx \<in> set (pending s) \<Longrightarrow>
         pool_run n limit outcome (settle n limit outcome idx s)"

text \<open>
  \<open>await mapLimit(...)\<close> yields \<open>rs\<close>: some run resolves the promise with it.
  (For an empty array nothing is ever started and the promise stays pending:
  \<open>computeGainers\<close> returns before it would call \<open>mapLimit\<close> with one.)
\<close>

definition mapLimit :: "'a list \<Rightarrow> int \<Rightarrow> (nat \<Rightarrow> error + 'r option) \<Rightarrow> 'r slot list \<Rightarrow> bool" where
  "mapLimit items limit outcome rs =
     (\<exists>s. pool_run (length items) limit outcome s \<and> resolved s \<and> rs = results s)"

text \<open>The number of workers that have not settled yet, started or not.\<close>

definition unsettled :: "nat \<Rightarrow> 'r pool \<Rightarrow> nat" where
  "unsettled n s = (n - next_i s) + length (pending s)"

text \<open>What a slot holds once the worker of its index has settled.\<close>

definition settled :: "(nat \<Rightarrow> error + 'r option) \<Rightarrow> nat \<Rightarrow> 'r slot" where
  "settled outcome idx = Filled (case outcome idx of Inr res \<Rightarrow> res | Inl e \<Rightarrow> None)"

text \<open>
  The invariant of the runs: the bookkeeping of the closure is consistent, the slots of
  the settled workers are filled and the others empty, at most \<open>limit\<close> workers are
  pending, the promise is resolved only when nothing is left, and until then some worker
  is pending.
\<close>

definition pool_core :: "nat \<Rightarrow> int \<Rightarrow> (nat \<Rightarrow> error + 'r option) \<Rightarrow> 'r pool \<Rightarrow> bool" where
  "pool_core n limit outcome s =
     (next_i s \<le> n \<and> active s = length (pending s) \<and> distinct (pending s) \<and>
      (\<forall>k\<in>set (pending s). k < next_i s) \<and> length (results s) = n \<and>
      (\<forall>k<n. results s ! k =
         (if k < next_i s \<and> k \<notin> set (pending s) then settled outcome k else Empty)) \<and>
      (active s = 0 \<or> int (active s) \<le> limit))"

definition pool_inv :: "nat \<Rightarrow> int \<Rightarrow> (nat \<Rightarrow> error + 'r option) \<Rightarrow> 'r pool \<Rightarrow> bool" where
  "pool_inv n limit outcome s =
     (pool_core n limit outcome s \<and>
      (resolved s \<longrightarrow> n \<le> next_i s \<and> pending s = []) \<and>
      (\<not> resolved s \<and> 0 < n \<and> 0 < limit \<longrightarrow> pending s \<noteq> []))"

text \<open>
  The items handed to \<open>computeGainers\<close>: objects with a \<open>symbol\<close> and a
  \<open>firstTs\<close>, and whatever else the caller put in.
\<close>

record item =
  item_symbol :: string
  item_firstTs :: jsnum

record 'i gain = basis_latest +
  info :: 'i
  pct :: jsnum

record gainer_opts =
  limitTickers :: "int option"
  concurrency :: "int option"
  anchor_opt :: "string option"
  mode_opt :: "string option"

definition limit_of :: "gainer_opts \<Rightarrow> int" where
  "limit_of options =
     (let l = (case limitTickers options of None \<Rightarrow> 50 | Some v \<Rightarrow> v)
      in if l \<le> 0 then 50 else l)"

definition concurrency_of :: "gainer_opts \<Rightarrow> int" where
  "concurrency_of options =
     (let c = (case concurrency options of None \<Rightarrow> 3 | Some v \<Rightarrow> v);
          c1 = (if c \<le> 0 then 3 else c)
      in if 10 < c1 then 10 else c1)"

text \<open>ToNumber of a value, and \<open>((latest - basis) / basis) * 100\<close>.\<close>

fun to_number :: "jsval \<Rightarrow> jsnum" where
  "to_number Undefined = NaN"
| "to_number Null = Fin 0"
| "to_number (Number n) = n"

definition pct_of :: "basis_latest \<Rightarrow> jsnum" where
  "pct_of r =
     js_mul (js_div (js_sub (to_number (latest r)) (to_number (basis r))) (to_number (basis r)))
       (Fin 100)"

text \<open>
  What a worker of \<open>computeGainers\<close> sees when it runs: the network, the two clock
  readings and the cache of that moment. The workers of one batch interleave, so the
  embedding lets every worker see an environment of its own, which covers every
  interleaving. \<open>fetched\<close> is what the awaited \<open>fetchBasisAndLatest\<close> of the worker
  of index \<open>k\<close> settles with.
\<close>

record env =
  env_http :: http
  env_now1 :: int
  env_now2 :: int
  env_cache :: cache

definition fetched ::
  "intl \<Rightarrow> (nat \<Rightarrow> env) \<Rightarrow> 'a item_scheme list \<Rightarrow> gainer_opts \<Rightarrow> jsnum \<Rightarrow> jsnum \<Rightarrow> nat \<Rightarrow>
     error + basis_latest" where
  "fetched fmt envs batch options year month k =
     fst (fetchBasisAndLatest fmt (env_http (envs k)) (env_now1 (envs k)) (env_now2 (envs k))
            (env_cache (envs k)) (item_symbol (batch ! k)) (item_firstTs (batch ! k))
            (Some \<lparr>opt_anchor = Some (case anchor_opt options of None \<Rightarrow> ''month'' | Some a \<Rightarrow> a),
                   opt_mode = Some (case mode_opt options of None \<Rightarrow> ''oc'' | Some m \<Rightarrow> m)\<rparr>)
            year month)"

text \<open>The worker: a failure of the resolver is caught and becomes \<open>null\<close>.\<close>

definition gain_worker ::
  "intl \<Rightarrow> (nat \<Rightarrow> env) \<Rightarrow> 'a item_scheme list \<Rightarrow> gainer_opts \<Rightarrow> jsnum \<Rightarrow> jsnum \<Rightarrow> nat \<Rightarrow>
     error + ('a item_scheme) gain option" where
  "gain_worker fmt envs batch options year month k =
     Inr (case fetched fmt envs batch options year month k of
            Inl e \<Rightarrow> None
          | Inr r \<Rightarrow> Some \<lparr>basis = basis r, latest = latest r, info = batch ! k, pct = pct_of r\<rparr>)"

text \<open>\<open>out.filter(Boolean)\<close>: empty slots and nulls go, objects stay.\<close>

fun filter_Boolean :: "'r slot list \<Rightarrow> 'r list" where
  "filter_Boolean [] = []"
| "filter_Boolean (Filled (Some v) # rs) = v # filter_Boolean rs"
| "filter_Boolean (_ # rs) = filter_Boolean rs"

definition by_pct :: "('i, 'b) gain_scheme \<Rightarrow> ('i, 'b) gain_scheme \<Rightarrow> jsnum" where
  "by_pct a b = js_sub (pct b) (pct a)"

text \<open>
  \<open>computeGainers(items, options)\<close> returns \<open>ranked\<close>. The numbers \<open>limitTickers\<close>
  and \<open>concurrency\<close> are integers, as every caller passes them.
\<close>

inductive computeGainers ::
  "intl \<Rightarrow> (nat \<Rightarrow> env) \<Rightarrow> 'a item_scheme list \<Rightarrow> gainer_opts \<Rightarrow> jsnum \<Rightarrow> jsnum \<Rightarrow>
     ('a item_scheme) gain list \<Rightarrow> bool" where
  no_items: "items = [] \<Longrightarrow> computeGainers fmt envs items options year month []"
| ranked: "items \<noteq> [] \<Longrightarrow> batch = take (nat (limit_of options)) items \<Longrightarrow>
     mapLimit batch (concurrency_of options) (gain_worker fmt envs batch options year month) out \<Longrightarrow>
     computeGainers fmt envs items options year month (js_sort by_pct (filter_Boolean out))"

text \<open>
  The ranking read off sequentially: what every run of \<open>computeGainers\<close> returns, as
  a function.
\<close>

definition ranked_gains ::
  "intl \<Rightarrow> (nat \<Rightarrow> env) \<Rightarrow> 'a item_scheme list \<Rightarrow> gainer_opts \<Rightarrow> jsnum \<Rightarrow> jsnum \<Rightarrow>
     ('a item_scheme) gain list" where
  "ranked_gains fmt envs items options year month =
     (if items = [] then []
      else
        (let batch = take (nat (limit_of options)) items;
             out = map (settled (gain_worker fmt envs batch options year month)) [0..<length batch]
         in js_sort by_pct (filter_Boolean out)))"

definition failed ::
  "intl \<Rightarrow> (nat \<Rightarrow> env) \<Rightarrow> 'a item_scheme list \<Rightarrow> gainer_opts \<Rightarrow> jsnum \<Rightarrow> jsnum \<Rightarrow> nat \<Rightarrow> bool" where
  "failed fmt envs items options year month k =
     (case fetched fmt envs items options year month k of Inl e \<Rightarrow> True | Inr r \<Rightarrow> False)"

section \<open>Concrete inputs\<close>

text \<open>
  Two mentions of one ticker in March 2024 (2024-03-05T10:00:00Z and
  2024-03-20T09:00:00Z), one in February 2024, one whose timestamp does not parse, and a
  mention whose ticker carries a leading blank.
\<close>

definition ann :: user where
  "ann = \<lparr>user_id = Some ''u1'', user_name = Some ''Ann''\<rparr>"

definition bo :: user where
  "bo = \<lparr>user_id = Some ''u2'', user_name = Some ''Bo''\<rparr>"

definition mention1 :: entry where
  "mention1 = \<lparr>ticker = Some ''XYZ'', timestamp = Fin 1709632800000, link = None, user = Some ann\<rparr>"

definition mention2 :: entry where
  "mention2 = \<lparr>ticker = Some ''xyz'', timestamp = Fin 1710925200000, link = None, user = Some bo\<rparr>"

definition mention_feb :: entry where
  "mention_feb = \<lparr>ticker = Some ''XYZ'', timestamp = Fin 1707523200000, link = None, user = Some bo\<rparr>"

definition mention_bad :: entry where
  "mention_bad = \<lparr>ticker = Some ''XYZ'', timestamp = NaN, link = None, user = None\<rparr>"

definition mention_blank :: entry where
  "mention_blank = \<lparr>ticker = Some '' xyz'', timestamp = Fin 1709632800000, link = None, user = Some ann\<rparr>"

definition mentions :: "entry list" where
  "mentions = [mention1, mention_feb, mention2, mention_bad]"

text \<open>A mention of May 999 (0999-05-01T00:00:00Z), far outside any real store.\<close>

definition mention_999 :: entry where
  "mention_999 = \<lparr>ticker = Some ''OLD'', timestamp = Fin (- 30631392000000), link = None, user = None\<rparr>"

text \<open>A mention of May 99 (0099-05-15T00:00:00Z).\<close>

definition mention_99 :: entry where
  "mention_99 = \<lparr>ticker = Some ''OLD'', timestamp = Fin (- 59031417600000), link = None, user = None\<rparr>"

text \<open>
  A formatter that knows the zone UTC only, and a series of three trading days
  (1, 4 and 5 March 2024, at 14:30 UTC) with a gap in the opens.
\<close>

definition DateFromTime :: "int \<Rightarrow> int" where
  "DateFromTime t =
     DayWithinYear t - (days_from_civil (YearFromTime t) (MonthFromTime t) - DayFromYear (YearFromTime t)) + 1"

definition utc_format :: intl where
  "utc_format zone t =
     (if zone = ''UTC''
      then Some (show_int (YearFromTime t), padStart2 (show_int (MonthFromTime t + 1)),
                 padStart2 (show_int (DateFromTime t)))
      else None)"

definition march_chart :: chart where
  "march_chart = \<lparr>timestamps = [Fin 1709303400000, Fin 1709562600000, Fin 1709649000000],
     opens = [Number (Fin 10), Null, Number (Fin 12)],
     closes = [Number (Fin 11), Number (Fin 13), Number (Fin 14)],
     lastClose = Number (Fin 14), lastPrice = Number (Fin 15), tz = ''UTC''\<rparr>"

text \<open>A payload of one trading day (1 March 2024) that has a close but no open.\<close>

definition null_open_result :: yahoo_result where
  "null_open_result = \<lparr>r_timestamp = Array [Number (Fin 1709303400)],
     r_open = Array [Null], r_close = Array [Number (Fin 10)], r_adjclose = Absent,
     r_regularMarketPrice = Number (Fin 12), r_exchangeTimezoneName = ''UTC''\<rparr>"

definition null_open_http :: http where
  "null_open_http symbol rng = Inr (Some null_open_result)"

definition march_result :: yahoo_result where
  "march_result = \<lparr>r_timestamp = Array [Number (Fin 1709303400), Number (Fin 1709562600), Number (Fin 1709649000)],
     r_open = Array [Number (Fin 10), Null, Number (Fin 12)],
     r_close = Array [Number (Fin 11), Number (Fin 13), Number (Fin 14)], r_adjclose = Absent,
     r_regularMarketPrice = Number (Fin 15), r_exchangeTimezoneName = ''UTC''\<rparr>"

definition march_http :: http where
  "march_http symbol rng = Inr (Some march_result)"

text \<open>A response whose only open is 0, as the provider reports for some instruments.\<close>

definition zero_open_result :: yahoo_result where
  "zero_open_result = \<lparr>r_timestamp = Array [Number (Fin 1709303400)],
     r_open = Array [Number (Fin 0)], r_close = Array [Number (Fin 10)], r_adjclose = Absent,
     r_regularMarketPrice = Number (Fin 12), r_exchangeTimezoneName = ''UTC''\<rparr>"

definition zero_open_http :: http where
  "zero_open_http symbol rng = Inr (Some zero_open_result)"

definition failing_http :: http where
  "failing_http symbol rng = Inl HttpError"

definition month_oc :: opts where
  "month_oc = \<lparr>opt_anchor = Some ''month'', opt_mode = Some ''oc''\<rparr>"

definition mention_oc :: opts where
  "mention_oc = \<lparr>opt_anchor = Some ''mention'', opt_mode = Some ''oc''\<rparr>"

text \<open>
  Batches for \<open>computeGainers\<close>: two items of which the second meets a failing
  network, and three items with a limit of one ticker, of which the first meets a failing
  network.
\<close>

definition good_env :: env where
  "good_env = \<lparr>env_http = march_http, env_now1 = 1709632800000, env_now2 = 1709632800000,
     env_cache = Map.empty\<rparr>"

definition bad_env :: env where
  "bad_env = \<lparr>env_http = failing_http, env_now1 = 1709632800000, env_now2 = 1709632800000,
     env_cache = Map.empty\<rparr>"

definition item_xyz :: item where
  "item_xyz = \<lparr>item_symbol = ''XYZ'', item_firstTs = Fin 1709632800000\<rparr>"

definition item_abc :: item where
  "item_abc = \<lparr>item_symbol = ''ABC'', item_firstTs = Fin 1709632800000\<rparr>"

definition item_def :: item where
  "item_def = \<lparr>item_symbol = ''DEF'', item_firstTs = Fin 1709632800000\<rparr>"

definition second_fails :: "nat \<Rightarrow> env" where
  "second_fails k = (if k = 1 then bad_env else good_env)"

definition first_fails :: "nat \<Rightarrow> env" where
  "first_fails k = (if k = 0 then bad_env else good_env)"

definition default_opts :: gainer_opts where
  "default_opts = \<lparr>limitTickers = None, concurrency = None, anchor_opt = None, mode_opt = None\<rparr>"

definition one_ticker :: gainer_opts where
  "one_ticker = \<lparr>limitTickers = Some 1, concurrency = Some 3, anchor_opt = None, mode_opt = None\<rparr>"

section \<open>Properties of the month aggregation\<close>

lemma map_of_map_set:
  "map_of (map_set m k v) k' = (if k' = k then Some v else map_of m k')"
  by (induction m) auto

lemma keys_map_set:
  "map fst (map_set m k v) = (if k \<in> fst ` set m then map fst m else map fst m @ [k])"
proof (induction m)
  case Nil
  show ?case by simp
next
  case (Cons p m)
  obtain k' v' where p: "p = (k', v')" by (cases p)
  show ?case using Cons.IH by (cases "k' = k") (force simp: p)+
qed

lemma set_keys_map_set: "fst ` set (map_set m k v) = insert k (fst ` set m)"
proof -
  have "set (map fst (map_set m k v)) = insert k (set (map fst m))"
    by (auto simp: keys_map_set)
  then show ?thesis by simp
qed

lemma distinct_map_set:
  "distinct (map fst m) \<Longrightarrow> distinct (map fst (map_set m k v))"
  by (simp add: keys_map_set)

lemma set_map_set_subset: "set (map_set m k v) \<subseteq> insert (k, v) (set m)"
  by (induction m) (auto split: if_splits)

lemma countMTD_bump: "countMTD (bump cur e) = Suc (countMTD cur)"
  by (simp add: bump_def Let_def)

lemma count_of_agg_step:
  "count_of (agg_step m e) k = count_of m k + (if sym_of e = Some k then 1 else 0)"
  by (auto simp: agg_step_def count_of_def map_of_map_set countMTD_bump fresh_agg_def Let_def
           split: option.splits)

lemma count_of_foldl:
  "count_of (foldl agg_step m es) k = count_of m k + length (filter (\<lambda>e. sym_of e = Some k) es)"
  by (induction es arbitrary: m) (auto simp: count_of_agg_step)

lemma keys_agg_step:
  "set (map fst (agg_step m e)) = set (map fst m) \<union> (case sym_of e of None \<Rightarrow> {} | Some s \<Rightarrow> {s})"
  by (simp add: agg_step_def set_keys_map_set Let_def split: option.splits)

lemma keys_foldl:
  "set (map fst (foldl agg_step m es)) = set (map fst m) \<union> {s. \<exists>e\<in>set es. sym_of e = Some s}"
proof (induction es arbitrary: m)
  case Nil
  show ?case by simp
next
  case (Cons e es)
  show ?case
    unfolding foldl_Cons Cons.IH keys_agg_step
    by (cases "sym_of e") auto
qed

lemma distinct_agg_step: "distinct (map fst m) \<Longrightarrow> distinct (map fst (agg_step m e))"
  by (auto simp: agg_step_def Let_def distinct_map_set split: option.splits)

lemma distinct_foldl: "distinct (map fst m) \<Longrightarrow> distinct (map fst (foldl agg_step m es))"
  by (induction es arbitrary: m) (auto simp: distinct_agg_step)

lemma toUpperCase_empty: "toUpperCase t = [] \<longleftrightarrow> t = []"
  by (simp add: toUpperCase_def)

lemma sym_of_Some:
  "sym_of e = Some s \<longleftrightarrow> (\<exists>t. ticker e = Some t \<and> t \<noteq> [] \<and> s = toUpperCase t)"
  by (auto simp: sym_of_def Let_def toUpperCase_empty split: option.splits)

lemma isInMonth_finite: "isInMonth ts ms \<Longrightarrow> \<exists>r. ts = Fin r"
  by (cases ts) (simp_all add: isInMonth_def newDate_def getUTCFullYear_def getter_eq_def)

lemma ordered_bump_fresh: "timestamp e = Fin r \<Longrightarrow> ordered_agg (bump fresh_agg e)"
  by (auto simp: bump_def fresh_agg_def ordered_agg_def js_gt_def Let_def)

lemma ordered_bump: "timestamp e = Fin r \<Longrightarrow> ordered_agg cur \<Longrightarrow> ordered_agg (bump cur e)"
  by (auto simp: bump_def ordered_agg_def js_gt_def Let_def)

lemma ordered_agg_step:
  assumes "timestamp e = Fin r" and "\<forall>(k, a)\<in>set m. ordered_agg a"
  shows "\<forall>(k, a)\<in>set (agg_step m e). ordered_agg a"
proof (cases "sym_of e")
  case None
  then show ?thesis using assms by (simp add: agg_step_def)
next
  case (Some s)
  have "ordered_agg (bump (case map_of m s of Some c \<Rightarrow> c | None \<Rightarrow> fresh_agg) e)"
  proof (cases "map_of m s")
    case None
    then show ?thesis using assms(1) by (simp add: ordered_bump_fresh)
  next
    case (Some c)
    then have "(s, c) \<in> set m" by (rule map_of_SomeD)
    then have "ordered_agg c" using assms(2) by auto
    then show ?thesis using Some assms(1) by (simp add: ordered_bump)
  qed
  then show ?thesis
    using Some assms(2) set_map_set_subset[of m s]
    by (auto simp: agg_step_def Let_def)
qed

lemma ordered_foldl:
  "\<forall>e\<in>set es. \<exists>r. timestamp e = Fin r \<Longrightarrow> \<forall>(k, a)\<in>set m. ordered_agg a \<Longrightarrow>
   \<forall>(k, a)\<in>set (foldl agg_step m es). ordered_agg a"
proof (induction es arbitrary: m)
  case Nil
  then show ?case by simp
next
  case (Cons e es)
  from Cons.prems(1) obtain r where "timestamp e = Fin r" by auto
  then have "\<forall>(k, a)\<in>set (agg_step m e). ordered_agg a"
    using Cons.prems(2) by (rule ordered_agg_step)
  then show ?case using Cons.IH Cons.prems(1) by simp
qed

lemma ordered_agg_le: "ordered_agg a \<Longrightarrow> js_le (firstTs a) (lastTs a)"
  by (auto simp: ordered_agg_def)

lemma byTicker_eq:
  "fst (buildMonthAgg entries year month) = foldl agg_step [] (filter (in_month year month) entries)"
  by (simp add: buildMonthAgg_def Let_def)

text \<open>
  The count of an aggregate in terms of the filter of the code: for a record that passes
  \<open>isInMonth\<close> and has a non-empty ticker, the aggregate under the uppercased ticker
  counts the records that pass the filter and have that ticker up to letter case.
\<close>

lemma countMTD_in_month:
  assumes "e \<in> set entries" and "ticker e = Some t" and "t \<noteq> []"
    and "isInMonth (timestamp e) (startOfMonthUTC year month)"
  shows "\<exists>a. map_of (fst (buildMonthAgg entries year month)) (toUpperCase t) = Some a \<and>
           countMTD a = length (filter (\<lambda>r. isInMonth (timestamp r) (startOfMonthUTC year month) \<and>
             (case ticker r of None \<Rightarrow> False
              | Some u \<Rightarrow> u \<noteq> [] \<and> toUpperCase u = toUpperCase t)) entries)"
proof -
  let ?mtd = "filter (in_month year month) entries"
  let ?bt = "fst (buildMonthAgg entries year month)"
  have same: "\<And>r. sym_of r = Some (toUpperCase t) \<longleftrightarrow>
      (case ticker r of None \<Rightarrow> False | Some u \<Rightarrow> u \<noteq> [] \<and> toUpperCase u = toUpperCase t)"
    by (auto simp: sym_of_Some split: option.splits)
  have "e \<in> set ?mtd" using assms(1,4) by (simp add: in_month_def)
  moreover have "sym_of e = Some (toUpperCase t)" using assms(2,3) by (simp add: sym_of_Some)
  ultimately have "toUpperCase t \<in> set (map fst ?bt)"
    unfolding byTicker_eq keys_foldl by auto
  then obtain a where a: "map_of ?bt (toUpperCase t) = Some a"
    by (metis map_of_eq_None_iff not_Some_eq set_map)
  have "count_of ?bt (toUpperCase t) = length (filter (\<lambda>r. sym_of r = Some (toUpperCase t)) ?mtd)"
    unfolding byTicker_eq count_of_foldl by (simp add: count_of_def)
  then have "countMTD a = length (filter (\<lambda>r. sym_of r = Some (toUpperCase t)) ?mtd)"
    using a by (simp add: count_of_def)
  also have "\<dots> = length (filter (\<lambda>r. isInMonth (timestamp r) (startOfMonthUTC year month) \<and>
             (case ticker r of None \<Rightarrow> False
              | Some u \<Rightarrow> u \<noteq> [] \<and> toUpperCase u = toUpperCase t)) entries)"
    by (simp add: same in_month_def conj_commute)
  finally show ?thesis using a by blast
qed

section \<open>The calendar\<close>

text \<open>
  The closed form \<open>year_of_day\<close> agrees with the standard's definition of the year
  of a day: every day of the year \<open>y\<close>, that is every day from \<open>DayFromYear y\<close> up
  to the day before \<open>DayFromYear (y + 1)\<close>, has the year \<open>y\<close>. Hence the start of
  a month from the year 100 on (up to 275759, the last year that lies wholly within the
  range of \<open>Date\<close>; month 1 to 12) lies in that month, and
  \<open>isInMonth\<close> against it selects exactly the timestamps whose UTC year and month
  are the month's.
\<close>

lemma yoe_of_parts:
  fixes doe c q r d :: int
  assumes doe: "doe = 36524 * c + 1461 * q + 365 * r + d"
    and b: "0 \<le> c" "c \<le> 3" "0 \<le> q" "q \<le> 24" "0 \<le> r" "r \<le> 3" "0 \<le> d" "d \<le> 365"
    and leap: "d = 365 \<longrightarrow> r = 3 \<and> (q < 24 \<or> c = 3)"
  shows "(doe - doe div 1460 + doe div 36524 - doe div 146096) div 365 = 100 * c + 4 * q + r"
    and "doe - doe div 146097 * 146097 = doe"
proof -
  have range: "0 \<le> doe" "doe \<le> 146096" using doe b leap by auto
  show "doe - doe div 146097 * 146097 = doe" using range by simp
  have v: "doe div 36524 - doe div 146096 = c"
  proof (cases "doe = 146096")
    case True
    then have "c = 3" using doe b leap by auto
    then show ?thesis using True by simp
  next
    case False
    then have "doe < 146096" using range by simp
    then have w: "doe div 146096 = 0" using range by simp
    have "1461 * q + 365 * r + d < 36524" using doe b leap False by auto
    then have "doe div 36524 = c"
      using doe b by (intro int_div_pos_eq [where r = "1461 * q + 365 * r + d"]) auto
    then show ?thesis using w by simp
  qed
  define rem where "rem = 24 * c + q + 365 * r + d"
  have rem: "0 \<le> rem" "rem < 2 * 1460" using b by (auto simp: rem_def)
  have u: "doe div 1460 = 25 * c + q + (if 1460 \<le> rem then 1 else 0)"
  proof (cases "1460 \<le> rem")
    case True
    have "doe div 1460 = 25 * c + q + 1"
      using doe True rem by (intro int_div_pos_eq [where r = "rem - 1460"]) (auto simp: rem_def)
    then show ?thesis using True by simp
  next
    case False
    have "doe div 1460 = 25 * c + q"
      using doe False rem by (intro int_div_pos_eq [where r = rem]) (auto simp: rem_def)
    then show ?thesis using False by simp
  qed
  define e where "e = d - (if 1460 \<le> rem then 1 else 0)"
  have e: "0 \<le> e" "e < 365"
    using b leap by (auto simp: e_def rem_def)
  have "doe - doe div 1460 + doe div 36524 - doe div 146096 = doe - doe div 1460 + c"
    using v by simp
  also have "\<dots> = 365 * (100 * c + 4 * q + r) + e"
    unfolding u e_def using doe by auto
  finally show "(doe - doe div 1460 + doe div 36524 - doe div 146096) div 365 = 100 * c + 4 * q + r"
    using e by (simp add: int_div_pos_eq [where r = e])
qed


lemma mod_zero_iff:
  fixes a n k :: int
  assumes "0 < a" and "a \<le> n"
  shows "(n * k + a) mod n = 0 \<longleftrightarrow> a = n"
proof (cases "a = n")
  case True
  then show ?thesis by simp
next
  case False
  then have "a mod n = a" using assms by simp
  then show ?thesis using False assms by simp
qed

lemma march_year_of_day:
  assumes d: "0 \<le> d" "d < 365 + InLeapYear (Y + 1)"
  shows "year_of_day (march_days Y + d - 719468) = (if d < 306 then Y else Y + 1)"
proof -
  define E where "E = Y div 400"
  define R where "R = Y mod 400"
  define c where "c = R div 100"
  define q where "q = (R mod 100) div 4"
  define r where "r = R mod 4"
  have R: "0 \<le> R" "R < 400" by (simp_all add: R_def)
  have Y: "Y = 400 * E + R" by (simp add: E_def R_def)
  have b: "0 \<le> c" "c \<le> 3" "0 \<le> q" "q \<le> 24" "0 \<le> r" "r \<le> 3"
    using R by (auto simp: c_def q_def r_def)
  have "R mod 100 mod 4 = R mod 4" by (simp add: mod_mod_cancel)
  then have "R mod 100 = 4 * q + r"
    unfolding q_def r_def using mult_div_mod_eq [of 4 "R mod 100"] by simp
  then have Rparts: "R = 100 * c + 4 * q + r"
    unfolding c_def using mult_div_mod_eq [of 100 R] by simp
  have Yparts: "Y = 400 * E + 100 * c + 4 * q + r" using Y Rparts by simp
  have d4: "Y div 4 = 100 * E + 25 * c + q"
    using Yparts b by (intro int_div_pos_eq [where r = r]) auto
  have d100: "Y div 100 = 4 * E + c"
    using Yparts b by (intro int_div_pos_eq [where r = "4 * q + r"]) auto
  have d400: "Y div 400 = E" by (simp add: E_def)
  have md: "march_days Y = 146097 * E + 36524 * c + 1461 * q + 365 * r"
    unfolding march_days_def d4 d100 d400 using Yparts by simp
  have leap1: "InLeapYear (Y + 1) = (if r = 3 \<and> (q < 24 \<or> c = 3) then 1 else 0)"
  proof -
    have eq4: "Y + 1 = 4 * (100 * E + 25 * c + q) + (r + 1)" using Yparts by simp
    have m4: "(Y + 1) mod 4 = 0 \<longleftrightarrow> r + 1 = 4"
      unfolding eq4 using b by (intro mod_zero_iff) auto
    have eq100: "Y + 1 = 100 * (4 * E + c) + (4 * q + r + 1)" using Yparts by simp
    have m100: "(Y + 1) mod 100 = 0 \<longleftrightarrow> 4 * q + r + 1 = 100"
      unfolding eq100 using b by (intro mod_zero_iff) auto
    have eq400: "Y + 1 = 400 * E + (100 * c + 4 * q + r + 1)" using Yparts by simp
    have m400: "(Y + 1) mod 400 = 0 \<longleftrightarrow> 100 * c + 4 * q + r + 1 = 400"
      unfolding eq400 using b by (intro mod_zero_iff) auto
    show ?thesis unfolding InLeapYear_def m4 m100 m400 using b by auto
  qed
  define doe where "doe = 36524 * c + 1461 * q + 365 * r + d"
  have dle: "d \<le> 365" and leap: "d = 365 \<longrightarrow> r = 3 \<and> (q < 24 \<or> c = 3)"
    using d leap1 by (auto split: if_splits)
  have range: "0 \<le> doe" "doe < 146097" using b d dle leap by (auto simp: doe_def)
  have z1: "march_days Y + d - 719468 + 719468 = 146097 * E + doe"
    by (simp add: md doe_def)
  have era: "(146097 * E + doe) div 146097 = E"
    using range by (intro int_div_pos_eq [where r = doe]) auto
  have doe': "146097 * E + doe - E * 146097 = doe" by simp
  have yoe: "(doe - doe div 1460 + doe div 36524 - doe div 146096) div 365 = 100 * c + 4 * q + r"
    using doe_def b d(1) dle leap by (rule yoe_of_parts(1))
  have y4: "(100 * c + 4 * q + r) div 4 = 25 * c + q"
    using b by (intro int_div_pos_eq [where r = r]) auto
  have y100: "(100 * c + 4 * q + r) div 100 = c"
    using b by (intro int_div_pos_eq [where r = "4 * q + r"]) auto
  have doy: "doe - (365 * (100 * c + 4 * q + r) + (25 * c + q) - c) = d"
    by (simp add: doe_def)
  show ?thesis
    unfolding year_of_day_def z1 Let_def era doe' yoe y4 y100 doy
    using Yparts by simp
qed


lemma div_shift: "(a - n * k) div n = a div n - k" if "n \<noteq> 0" for a n k :: int
  using div_mult_self1 [of n a "- k"] that by (simp add: algebra_simps)

lemma DayFromYear_march: "DayFromYear y + 719468 = march_days (y - 1) + 306"
proof -
  have "(y - 1969) div 4 = (y - 1) div 4 - 492"
    using div_shift [of 4 "y - 1" 492] by simp
  moreover have "(y - 1901) div 100 = (y - 1) div 100 - 19"
    using div_shift [of 100 "y - 1" 19] by simp
  moreover have "(y - 1601) div 400 = (y - 1) div 400 - 4"
    using div_shift [of 400 "y - 1" 4] by simp
  ultimately show ?thesis by (simp add: DayFromYear_def march_days_def)
qed

lemma div_succ: "(Y + 1) div n = Y div n + (if (Y + 1) mod n = 0 then 1 else 0)" if "1 < n" for Y n :: int
proof (cases "(Y + 1) mod n = 0")
  case True
  then obtain k where k: "Y + 1 = n * k" by (auto simp: mod_eq_0_iff_dvd)
  then have "Y = n * (k - 1) + (n - 1)" by (simp add: algebra_simps)
  then have "Y div n = k - 1" using that by (intro int_div_pos_eq [where r = "n - 1"]) auto
  moreover have "(Y + 1) div n = k" using k that by simp
  ultimately show ?thesis using True by simp
next
  case False
  define r where "r = (Y + 1) mod n"
  have r: "0 < r" "r < n" using False that by (auto simp: r_def intro: le_neq_trans)
  have "Y + 1 = n * ((Y + 1) div n) + r" by (simp add: r_def)
  then have "Y = n * ((Y + 1) div n) + (r - 1)" by simp
  then have "Y div n = (Y + 1) div n" using r by (intro int_div_pos_eq [where r = "r - 1"]) auto
  then show ?thesis using False by simp
qed

lemma march_days_Suc: "march_days (Y + 1) = march_days Y + 365 + InLeapYear (Y + 1)"
proof -
  have "4 dvd Y + 1" if "100 dvd Y + 1" using that by (rule dvd_trans [rotated]) simp
  moreover have "100 dvd Y + 1" if "400 dvd Y + 1" using that by (rule dvd_trans [rotated]) simp
  ultimately show ?thesis
    by (auto simp: march_days_def InLeapYear_def div_succ mod_eq_0_iff_dvd)
qed


lemma DayFromYear_Suc: "DayFromYear (y + 1) = DayFromYear y + 365 + InLeapYear y"
  using DayFromYear_march [of "y + 1"] DayFromYear_march [of y] march_days_Suc [of "y - 1"]
  by simp

lemma InLeapYear_range: "0 \<le> InLeapYear y \<and> InLeapYear y \<le> 1"
  by (simp add: InLeapYear_def)

lemma year_of_day_in_year:
  assumes "0 \<le> k" and "k < 365 + InLeapYear y"
  shows "year_of_day (DayFromYear y + k) = y"
proof (cases "k < 59 + InLeapYear y")
  case True
  have eq: "DayFromYear y + k = march_days (y - 1) + (306 + k) - 719468"
    using DayFromYear_march [of y] by simp
  have "year_of_day (march_days (y - 1) + (306 + k) - 719468) =
      (if 306 + k < 306 then y - 1 else y - 1 + 1)"
    using True assms by (intro march_year_of_day) auto
  then show ?thesis unfolding eq using assms by simp
next
  case False
  have eq: "DayFromYear y + k = march_days y + (k - 59 - InLeapYear y) - 719468"
    using DayFromYear_march [of y] march_days_Suc [of "y - 1"] by simp
  have "year_of_day (march_days y + (k - 59 - InLeapYear y) - 719468) =
      (if k - 59 - InLeapYear y < 306 then y else y + 1)"
    using False assms InLeapYear_range [of "y + 1"] by (intro march_year_of_day) auto
  then show ?thesis unfolding eq using assms InLeapYear_range [of y] by simp
qed

lemma month_start:
  assumes "0 \<le> m" and "m \<le> 11"
  shows "YearFromTime (days_from_civil y m * msPerDay) = y \<and>
         MonthFromTime (days_from_civil y m * msPerDay) = m"
proof -
  define off where "off = days_from_civil y m - DayFromYear y"
  have day: "Day (days_from_civil y m * msPerDay) = DayFromYear y + off"
    by (simp add: Day_def msPerDay_def off_def)
  have l: "0 \<le> InLeapYear y" "InLeapYear y \<le> 1" using InLeapYear_range [of y] by auto
  have cases: "m = 0 \<or> m = 1 \<or> m = 2 \<or> m = 3 \<or> m = 4 \<or> m = 5 \<or> m = 6 \<or> m = 7 \<or> m = 8 \<or>
      m = 9 \<or> m = 10 \<or> m = 11" using assms by arith
  have off: "0 \<le> off" "off < 365 + InLeapYear y"
    using cases l by (auto simp: off_def days_from_civil_def Let_def)
  then have yr: "YearFromTime (days_from_civil y m * msPerDay) = y"
    unfolding YearFromTime_def day by (rule year_of_day_in_year)
  have "DayWithinYear (days_from_civil y m * msPerDay) = off"
    by (simp add: DayWithinYear_def yr day)
  then have "MonthFromTime (days_from_civil y m * msPerDay) = m"
    unfolding MonthFromTime_def yr Let_def
    using cases l by (auto simp: off_def days_from_civil_def Let_def)
  then show ?thesis using yr by simp
qed

lemma DayFromYear_mono: "y \<le> y' \<Longrightarrow> DayFromYear y \<le> DayFromYear y'"
proof (induction y' rule: int_ge_induct)
  case base
  show ?case by simp
next
  case (step i)
  then show ?case using DayFromYear_Suc [of i] InLeapYear_range [of i] by simp
qed

lemma DayFromYear_bounds:
  assumes "100 \<le> y" and "y \<le> 275759"
  shows "- 683003 \<le> DayFromYear y \<and> DayFromYear y \<le> 99999379"
proof -
  have lo: "DayFromYear 100 = - 683003" by (simp add: DayFromYear_def)
  have hi: "DayFromYear 275759 = 99999379" by (simp add: DayFromYear_def)
  show ?thesis
    using DayFromYear_mono [OF assms(1)] DayFromYear_mono [OF assms(2)] unfolding lo hi by simp
qed

lemma trunc_of_int: "trunc (of_int i) = i"
  by (simp add: trunc_def)

lemma startOfMonthUTC_plain:
  assumes "100 \<le> y" and "y \<le> 275759" and "1 \<le> m" and "m \<le> 12"
  shows "startOfMonthUTC (Fin (of_int y)) (Fin (of_int m)) =
           Fin (of_int (days_from_civil y (m - 1) * msPerDay)) \<and>
         newDate (startOfMonthUTC (Fin (of_int y)) (Fin (of_int m))) =
           Some (days_from_civil y (m - 1) * msPerDay)"
proof -
  have tr: "trunc (of_int y) = y" "trunc (of_int m - 1) = m - 1"
    using trunc_of_int [of y] trunc_of_int [of "m - 1"] by simp_all
  have dm: "(m - 1) div 12 = 0" "(m - 1) mod 12 = m - 1" using assms by auto
  have l: "0 \<le> InLeapYear y" "InLeapYear y \<le> 1" using InLeapYear_range [of y] by auto
  have "- 700000 \<le> days_from_civil y (m - 1)" "days_from_civil y (m - 1) \<le> 99999999"
    using DayFromYear_bounds [OF assms(1,2)] l by (auto simp: days_from_civil_def Let_def)
  then have bound: "\<bar>days_from_civil y (m - 1) * msPerDay\<bar> \<le> 8640000000000000"
    by (simp add: msPerDay_def abs_le_iff)
  then have rb: "\<bar>real_of_int (days_from_civil y (m - 1) * msPerDay)\<bar> \<le> 8640000000000000"
    by (metis of_int_abs of_int_le_iff of_int_numeral)
  have s: "startOfMonthUTC (Fin (of_int y)) (Fin (of_int m)) =
           Fin (of_int (days_from_civil y (m - 1) * msPerDay))"
    using assms(1) bound by (simp add: startOfMonthUTC_def Date_UTC_def tr dm Let_def)
  moreover have "trunc (of_int (days_from_civil y (m - 1) * msPerDay)) =
      days_from_civil y (m - 1) * msPerDay"
    by (rule trunc_of_int)
  ultimately show ?thesis using rb unfolding newDate_def by (simp del: of_int_mult)
qed

lemma isInMonth_plain:
  assumes "100 \<le> y" and "y \<le> 275759" and "1 \<le> m" and "m \<le> 12"
  shows "isInMonth ts (startOfMonthUTC (Fin (of_int y)) (Fin (of_int m))) \<longleftrightarrow>
         getUTCFullYear (newDate ts) = Some y \<and> getUTCMonth (newDate ts) = Some (m - 1)"
proof -
  have "YearFromTime (days_from_civil y (m - 1) * msPerDay) = y \<and>
        MonthFromTime (days_from_civil y (m - 1) * msPerDay) = m - 1"
    using assms by (intro month_start) auto
  then show ?thesis
    using startOfMonthUTC_plain [OF assms]
    by (cases "newDate ts")
       (auto simp: isInMonth_def Let_def getUTCFullYear_def getUTCMonth_def getter_eq_def)
qed

section \<open>Properties of the list of months\<close>

lemma desc_cmp_gt: "js_gt (localeCompare b a) (Fin 0) \<longleftrightarrow> a < b"
  by (auto simp: localeCompare_def js_gt_def)

lemma set_insert_cmp: "set (insert_cmp cmp x ys) = insert x (set ys)"
  by (induction ys) auto

lemma distinct_insert_cmp: "x \<notin> set ys \<Longrightarrow> distinct ys \<Longrightarrow> distinct (insert_cmp cmp x ys)"
  by (induction ys) (auto simp: set_insert_cmp)

lemma set_js_sort: "set (js_sort cmp xs) = set xs"
  by (induction xs) (auto simp: js_sort_def set_insert_cmp)

lemma distinct_js_sort: "distinct xs \<Longrightarrow> distinct (js_sort cmp xs)"
proof (induction xs)
  case Nil
  show ?case by (simp add: js_sort_def)
next
  case (Cons x xs)
  then have "x \<notin> set (js_sort cmp xs)" and "distinct (js_sort cmp xs)"
    by (simp_all add: set_js_sort)
  then have "distinct (insert_cmp cmp x (js_sort cmp xs))" by (rule distinct_insert_cmp)
  then show ?case by (simp add: js_sort_def)
qed

lemma length_js_sort: "length (js_sort cmp xs) = length xs"
proof -
  have "length (insert_cmp cmp x ys) = Suc (length ys)" for x and ys :: "'a list"
    by (induction ys) auto
  then show ?thesis by (induction xs) (auto simp: js_sort_def)
qed

lemma sorted_insert_desc:
  fixes x :: string
  shows "sorted_wrt (\<lambda>a b. b \<le> a) ys \<Longrightarrow>
         sorted_wrt (\<lambda>a b. b \<le> a) (insert_cmp (\<lambda>a b. localeCompare b a) x ys)"
  by (induction ys) (auto simp: desc_cmp_gt set_insert_cmp)

lemma sorted_js_sort_desc:
  "sorted_wrt (\<lambda>a b. b \<le> a) (js_sort (\<lambda>a b. localeCompare b a) (xs :: string list))"
  by (induction xs) (auto simp: js_sort_def intro: sorted_insert_desc [unfolded js_sort_def])

lemma strict_of_distinct:
  fixes xs :: "string list"
  shows "sorted_wrt (\<lambda>a b. b \<le> a) xs \<Longrightarrow> distinct xs \<Longrightarrow> sorted_wrt (\<lambda>a b. b < a) xs"
  by (induction xs) (auto simp: order_less_le)

lemma set_add_loop:
  "set (foldl (\<lambda>months e. set_add months (f e)) s es) = set s \<union> f ` set es"
  by (induction es arbitrary: s) (auto simp: set_add_def)

lemma distinct_add_loop:
  "distinct s \<Longrightarrow> distinct (foldl (\<lambda>months e. set_add months (f e)) s es)"
  by (induction es arbitrary: s) (auto simp: set_add_def)

lemma set_getAvailableMonths: "set (getAvailableMonths entries) = month_key ` set entries"
  by (simp add: getAvailableMonths_def Let_def set_js_sort set_add_loop)

lemma distinct_getAvailableMonths: "distinct (getAvailableMonths entries)"
  by (simp add: getAvailableMonths_def Let_def distinct_js_sort distinct_add_loop)

lemma desc_getAvailableMonths: "sorted_wrt (\<lambda>a b. b < a) (getAvailableMonths entries)"
  unfolding getAvailableMonths_def Let_def
  by (intro strict_of_distinct sorted_js_sort_desc distinct_js_sort distinct_add_loop) simp

lemma month_key_NaN: "timestamp e = NaN \<Longrightarrow> month_key e = ''NaN-NaN''"
  by (simp add: month_key_def newDate_def getUTCFullYear_def getUTCMonth_def js_string_def
      padStart2_def)

lemma of_char_digit: "n < 10 \<Longrightarrow> of_char (digit_char n) = 48 + n"
  by (simp add: digit_char_def)

lemma digit_char_less: "a < 10 \<Longrightarrow> b < 10 \<Longrightarrow> digit_char a < digit_char b \<longleftrightarrow> a < b"
  by (simp add: less_char_def of_char_digit)

lemma digit_char_eq: "a < 10 \<Longrightarrow> b < 10 \<Longrightarrow> digit_char a = digit_char b \<longleftrightarrow> a = b"
  by (metis of_char_digit add_left_cancel)

lemma digit_char_0: "digit_char 0 = CHR ''0''"
  by code_simp

lemma show_digits_1: "n < 10 \<Longrightarrow> show_digits n = [digit_char (nat n)]"
  by (simp add: show_digits.simps [of n])

lemma show_digits_step:
  "10 \<le> n \<Longrightarrow> show_digits n = show_digits (n div 10) @ [digit_char (nat (n mod 10))]"
  by (simp add: show_digits.simps [of n])

lemma show_digits_2:
  "10 \<le> n \<Longrightarrow> n < 100 \<Longrightarrow>
   show_digits n = [digit_char (nat (n div 10)), digit_char (nat (n mod 10))]"
  by (simp add: show_digits_step show_digits_1)

lemma show_digits_3:
  assumes "100 \<le> n" and "n < 1000"
  shows "show_digits n = [digit_char (nat (n div 100)), digit_char (nat (n div 10 mod 10)),
     digit_char (nat (n mod 10))]"
proof -
  have "10 \<le> n div 10" "n div 10 < 100" using assms by auto
  then have "show_digits (n div 10) =
      [digit_char (nat (n div 10 div 10)), digit_char (nat (n div 10 mod 10))]"
    by (rule show_digits_2)
  moreover have "n div 10 div 10 = n div 100" by (simp add: zdiv_zmult2_eq [symmetric])
  ultimately show ?thesis using assms by (simp add: show_digits_step)
qed

lemma show_digits_4:
  assumes "1000 \<le> n" and "n < 10000"
  shows "show_digits n = [digit_char (nat (n div 1000)), digit_char (nat (n div 100 mod 10)),
     digit_char (nat (n div 10 mod 10)), digit_char (nat (n mod 10))]"
proof -
  have "100 \<le> n div 10" "n div 10 < 1000" using assms by auto
  then have "show_digits (n div 10) = [digit_char (nat (n div 10 div 100)),
      digit_char (nat (n div 10 div 10 mod 10)), digit_char (nat (n div 10 mod 10))]"
    by (rule show_digits_3)
  moreover have "n div 10 div 100 = n div 1000" "n div 10 div 10 = n div 100"
    by (simp_all add: zdiv_zmult2_eq [symmetric])
  ultimately show ?thesis using assms by (simp add: show_digits_step)
qed

lemma pad_show_digits:
  "0 \<le> n \<Longrightarrow> n < 100 \<Longrightarrow>
   padStart2 (show_digits n) = [digit_char (nat (n div 10)), digit_char (nat (n mod 10))]"
  by (cases "n < 10") (simp_all add: show_digits_1 show_digits_2 padStart2_def digit_char_0)

lemma key_digits:
  assumes "1000 \<le> y" "y \<le> 9999" "0 \<le> m" "m < 100"
  shows "key_of_month (y, m) = [digit_char (nat y div 1000), digit_char (nat y div 100 mod 10),
     digit_char (nat y div 10 mod 10), digit_char (nat y mod 10), CHR ''-'',
     digit_char (nat m div 10), digit_char (nat m mod 10)]"
  using assms
  by (simp add: key_of_month_def show_int_def show_digits_4 pad_show_digits
      nat_div_distrib nat_mod_distrib)

lemma less_by_digit: "(n::nat) < m \<longleftrightarrow> n div 10 < m div 10 \<or> (n div 10 = m div 10 \<and> n mod 10 < m mod 10)"
proof -
  have "n = 10 * (n div 10) + n mod 10" "m = 10 * (m div 10) + m mod 10" by simp_all
  moreover have "n mod 10 < 10" "m mod 10 < 10" by simp_all
  ultimately show ?thesis by linarith
qed

lemma eq_by_digit: "(n::nat) = m \<longleftrightarrow> n div 10 = m div 10 \<and> n mod 10 = m mod 10"
  by (metis div_mult_mod_eq)

lemma lex_digits4:
  fixes a b :: nat
  shows "(a div 1000 < b div 1000 \<or> a div 1000 = b div 1000 \<and>
          (a div 100 mod 10 < b div 100 mod 10 \<or> a div 100 mod 10 = b div 100 mod 10 \<and>
           (a div 10 mod 10 < b div 10 mod 10 \<or> a div 10 mod 10 = b div 10 mod 10 \<and>
            (a mod 10 < b mod 10 \<or> a mod 10 = b mod 10 \<and> P)))) \<longleftrightarrow> a < b \<or> (a = b \<and> P)"
proof -
  have d: "a div 10 div 10 = a div 100" "a div 100 div 10 = a div 1000"
          "b div 10 div 10 = b div 100" "b div 100 div 10 = b div 1000"
    by (simp_all add: div_mult2_eq [symmetric])
  note l1 = less_by_digit [of a b] and e1 = eq_by_digit [of a b]
  note l2 = less_by_digit [of "a div 10" "b div 10", unfolded d]
    and e2 = eq_by_digit [of "a div 10" "b div 10", unfolded d]
  note l3 = less_by_digit [of "a div 100" "b div 100", unfolded d]
    and e3 = eq_by_digit [of "a div 100" "b div 100", unfolded d]
  show ?thesis using l1 e1 l2 e2 l3 e3 by blast
qed

lemma key_less_iff:
  assumes "1000 \<le> y1" "y1 \<le> 9999" "0 \<le> m1" "m1 < 100" "1000 \<le> y2" "y2 \<le> 9999" "0 \<le> m2" "m2 < 100"
  shows "key_of_month (y1, m1) < key_of_month (y2, m2) \<longleftrightarrow> later_month (y2, m2) (y1, m1)"
proof -
  define a where "a = nat y1"
  define b where "b = nat y2"
  define c where "c = nat m1"
  define d where "d = nat m2"
  have r: "1000 \<le> a" "a < 10000" "1000 \<le> b" "b < 10000" "c < 100" "d < 100"
    using assms by (auto simp: a_def b_def c_def d_def)
  have l: "later_month (y2, m2) (y1, m1) \<longleftrightarrow> a < b \<or> (a = b \<and> c < d)"
    using assms by (auto simp: later_month_def a_def b_def c_def d_def)
  have bounds: "a div 1000 < 10" "b div 1000 < 10" "c div 10 < 10" "d div 10 < 10" using r by auto
  have cd: "c < d \<longleftrightarrow> c div 10 < d div 10 \<or> (c div 10 = d div 10 \<and> c mod 10 < d mod 10)"
    by (rule less_by_digit)
  have "key_of_month (y1, m1) < key_of_month (y2, m2) \<longleftrightarrow>
     (a div 1000 < b div 1000 \<or> a div 1000 = b div 1000 \<and>
          (a div 100 mod 10 < b div 100 mod 10 \<or> a div 100 mod 10 = b div 100 mod 10 \<and>
           (a div 10 mod 10 < b div 10 mod 10 \<or> a div 10 mod 10 = b div 10 mod 10 \<and>
            (a mod 10 < b mod 10 \<or> a mod 10 = b mod 10 \<and> c < d))))"
    unfolding key_digits [OF assms(1-4)] key_digits [OF assms(5-8)]
      a_def [symmetric] b_def [symmetric] c_def [symmetric] d_def [symmetric] cd
    using bounds by (simp add: digit_char_less digit_char_eq)
  then show ?thesis unfolding l lex_digits4 .
qed

lemma MonthFromTime_range: "0 \<le> MonthFromTime t \<and> MonthFromTime t \<le> 11"
  by (simp add: MonthFromTime_def Let_def)

lemma month_key_plain:
  assumes "plain_year e"
  shows "\<exists>p. plain_month p \<and> month_key e = key_of_month p"
proof -
  from assms obtain t where t: "newDate (timestamp e) = Some t"
    and y: "1000 \<le> YearFromTime t" "YearFromTime t \<le> 9999"
    by (auto simp: plain_year_def getUTCFullYear_def split: option.splits)
  have "month_key e = key_of_month (YearFromTime t, MonthFromTime t + 1)"
    by (simp add: month_key_def t getUTCFullYear_def getUTCMonth_def js_string_def key_of_month_def)
  moreover have "plain_month (YearFromTime t, MonthFromTime t + 1)"
    using y MonthFromTime_range [of t] by (simp add: plain_month_def)
  ultimately show ?thesis by blast
qed

lemma plain_key_less:
  assumes "plain_month p" and "plain_month q" and "key_of_month q < key_of_month p"
  shows "later_month p q"
proof -
  obtain y1 m1 y2 m2 where pq: "q = (y1, m1)" "p = (y2, m2)" by (cases p, cases q) auto
  show ?thesis
    using assms key_less_iff [of y1 m1 y2 m2] unfolding pq plain_month_def by simp
qed

lemma plain_newest_first:
  assumes "\<forall>e\<in>set entries. plain_year e"
  shows "newest_first (getAvailableMonths entries)"
proof -
  let ?L = "getAvailableMonths entries"
  define f where "f k = (SOME p. plain_month p \<and> key_of_month p = k)" for k
  have f: "plain_month (f k) \<and> key_of_month (f k) = k" if "k \<in> set ?L" for k
  proof -
    from that obtain e where "e \<in> set entries" "k = month_key e"
      by (auto simp: set_getAvailableMonths)
    with assms have "\<exists>p. plain_month p \<and> key_of_month p = k"
      using month_key_plain [of e] by metis
    then show ?thesis unfolding f_def by (rule someI_ex)
  qed
  have "map key_of_month (map f ?L) = ?L"
    using f by (simp add: map_idI)
  moreover have "sorted_wrt later_month (map f ?L)"
  proof -
    have "sorted_wrt (\<lambda>a b. later_month (f a) (f b)) ?L"
    proof (rule sorted_wrt_mono_rel [OF _ desc_getAvailableMonths])
      fix a b assume "a \<in> set ?L" "b \<in> set ?L" "b < a"
      then show "later_month (f a) (f b)"
        using f [of a] f [of b] by (auto intro: plain_key_less)
    qed
    then show ?thesis by (simp add: sorted_wrt_map)
  qed
  ultimately show ?thesis unfolding newest_first_def by metis
qed

text \<open>
  What \<open>getAvailableMonths\<close> returns for every collection: a duplicate-free list,
  strictly descending in the order of its comparator (\<open>b.localeCompare(a)\<close> is negative
  for every \<open>a\<close> that comes before a \<open>b\<close>), that holds exactly the keys derived from
  the UTC year and month of the records. The order of the comparator is the order of
  the keys as text; it is the order of the months, newest first, when every timestamp
  parses to a UTC year of four digits (1000 to 9999).
\<close>

lemma getAvailableMonths_text_descending:
  "sorted_wrt (\<lambda>a b. localeCompare b a = Fin (- 1)) (getAvailableMonths entries) \<and>
   distinct (getAvailableMonths entries) \<and>
   set (getAvailableMonths entries) = month_key ` set entries \<and>
   ((\<forall>e\<in>set entries. plain_year e) \<longrightarrow> newest_first (getAvailableMonths entries))"
proof (intro conjI impI)
  have "localeCompare b a = Fin (- 1) \<longleftrightarrow> b < a" for a b :: string
    by (simp add: localeCompare_def)
  then show "sorted_wrt (\<lambda>a b. localeCompare b a = Fin (- 1)) (getAvailableMonths entries)"
    using desc_getAvailableMonths [of entries] by simp
  show "distinct (getAvailableMonths entries)" by (rule distinct_getAvailableMonths)
  show "set (getAvailableMonths entries) = month_key ` set entries"
    by (rule set_getAvailableMonths)
  show "newest_first (getAvailableMonths entries)" if "\<forall>e\<in>set entries. plain_year e"
    using that by (rule plain_newest_first)
qed

section \<open>Properties of the price series fetch and of the resolver\<close>

lemma js_max_one_int: "js_max (Fin 1) (Fin (of_int d)) = Fin (of_int (max 1 d))"
proof (cases "1 < d")
  case True
  then have "(1::real) < of_int d" by linarith
  then show ?thesis using True by (simp add: max_def)
next
  case False
  then have "\<not> (1::real) < of_int d" by linarith
  then show ?thesis using False by (simp add: max_def)
qed

lemma elapsed_days_number:
  assumes "f \<noteq> 0"
  shows "elapsed_days now1 now2 (Fin f) = Fin (of_int (spec_elapsed_days now1 f))"
proof -
  have "elapsed_days now1 now2 (Fin f) =
      js_max (Fin 1) (Fin (of_int \<lfloor>(of_int now1 - f) / 86400000\<rfloor>))"
    using assms by (simp add: elapsed_days_def js_sub_def)
  then show ?thesis
    unfolding js_max_one_int spec_elapsed_days_def .
qed

lemma range_of_days_int: "range_of_days (Fin (of_int d)) = spec_range d"
proof -
  have "(of_int d \<le> (30::real)) = (d \<le> 30)" "(of_int d \<le> (62::real)) = (d \<le> 62)"
       "(of_int d \<le> (370::real)) = (d \<le> 370)"
    by linarith+
  then show ?thesis
    by (simp add: range_of_days_def spec_range_def not_less)
qed

lemma elapsed_days_falsy:
  "\<not> truthy x \<Longrightarrow> elapsed_days now now x = Fin 1"
  by (simp add: elapsed_days_def js_sub_def)

lemma getYahooChart_hit:
  "chartCache (cacheKey symbol (chart_range now1 now2 fromTsMs)) = Some ch \<Longrightarrow>
   getYahooChart http now1 now2 chartCache symbol fromTsMs = (Inr ch, chartCache)"
  by (simp add: getYahooChart_def Let_def)

lemma getYahooChart_cached:
  assumes "getYahooChart http now1 now2 chartCache symbol fromTsMs = (res, c)"
    and "c (cacheKey symbol (chart_range now1 now2 fromTsMs)) = Some ch"
  shows "res = Inr ch"
  using assms
  by (auto simp: getYahooChart_def Let_def split: option.splits sum.splits)

lemma scan_dates_result:
  assumes "scan_dates fmt zone target ts i = Inr k"
  shows "(k = - 1 \<and> (\<forall>j<length ts. \<exists>ymd. localYMD fmt (ts ! j) zone = Inr ymd \<and> ymd < target)) \<or>
         (\<exists>j<length ts. k = int (i + j) \<and>
            (\<exists>ymd. localYMD fmt (ts ! j) zone = Inr ymd \<and> target \<le> ymd) \<and>
            (\<forall>j'<j. \<exists>ymd. localYMD fmt (ts ! j') zone = Inr ymd \<and> ymd < target))"
  using assms
proof (induction ts arbitrary: i)
  case Nil
  then show ?case by simp
next
  case (Cons t ts)
  from Cons.prems obtain ymd where ymd: "localYMD fmt t zone = Inr ymd"
    by (auto split: sum.splits)
  show ?case
  proof (cases "target \<le> ymd")
    case True
    then have "k = int i" using Cons.prems ymd by simp
    then have "0 < length (t # ts) \<and> k = int (i + 0) \<and>
        (\<exists>y. localYMD fmt ((t # ts) ! 0) zone = Inr y \<and> target \<le> y) \<and>
        (\<forall>j'<0. \<exists>y. localYMD fmt ((t # ts) ! j') zone = Inr y \<and> y < target)"
      using ymd True by simp
    then show ?thesis by blast
  next
    case False
    then have lt: "ymd < target" by simp
    from False Cons.prems ymd have "scan_dates fmt zone target ts (Suc i) = Inr k" by simp
    from Cons.IH [OF this] show ?thesis
    proof (elim disjE conjE exE)
      assume k: "k = - 1"
        and all: "\<forall>j<length ts. \<exists>y. localYMD fmt (ts ! j) zone = Inr y \<and> y < target"
      have "\<exists>y. localYMD fmt ((t # ts) ! j) zone = Inr y \<and> y < target" if "j < length (t # ts)" for j
        using that all ymd lt by (cases j) auto
      then show ?thesis using k by blast
    next
      fix j ymd'
      assume j: "j < length ts" "k = int (Suc i + j)" "localYMD fmt (ts ! j) zone = Inr ymd'"
        "target \<le> ymd'"
        and before: "\<forall>j'<j. \<exists>y. localYMD fmt (ts ! j') zone = Inr y \<and> y < target"
      have "\<exists>y. localYMD fmt ((t # ts) ! j') zone = Inr y \<and> y < target" if "j' < Suc j" for j'
        using that before ymd lt by (cases j') auto
      moreover have "Suc j < length (t # ts)" "k = int (i + Suc j)"
        "\<exists>y. localYMD fmt ((t # ts) ! Suc j) zone = Inr y \<and> target \<le> y"
        using j by simp_all
      ultimately show ?thesis by blast
    qed
  qed
qed

lemma scan_usable_first:
  "k < length ys \<Longrightarrow> usable (ys ! k) \<Longrightarrow> \<forall>i<k. \<not> usable (ys ! i) \<Longrightarrow> scan_usable ys s = ys ! k"
proof (induction ys arbitrary: k)
  case Nil
  then show ?case by simp
next
  case (Cons y ys)
  show ?case
  proof (cases k)
    case 0
    then show ?thesis using Cons.prems by (simp add: usable_def)
  next
    case (Suc k')
    then have "\<not> usable y" using Cons.prems(3) by auto
    moreover have "scan_usable ys s = ys ! k'"
      using Cons.prems Suc by (intro Cons.IH) auto
    ultimately show ?thesis using Suc by (auto simp: usable_def)
  qed
qed

lemma gap_fill_nearest:
  assumes "idx \<le> j" and "j < length xs" and "usable (xs ! j)"
    and "\<forall>i. idx \<le> i \<and> i < j \<longrightarrow> \<not> usable (xs ! i)"
  shows "gap_fill xs idx = xs ! j"
proof (cases "j = idx")
  case True
  then show ?thesis using assms by (simp add: gap_fill_def js_nth_def usable_def Let_def)
next
  case False
  then have "\<not> usable (xs ! idx)" and idx: "idx < length xs" using assms by auto
  then have start: "\<not> not_null (js_nth xs idx) \<or> \<not> isFinite (js_nth xs idx)"
    by (simp add: js_nth_def usable_def)
  have "scan_usable (drop idx xs) (js_nth xs idx) = drop idx xs ! (j - idx)"
    using assms by (intro scan_usable_first) auto
  then show ?thesis using start assms(1,2) by (simp add: gap_fill_def Let_def)
qed

lemma usable_not_null: "usable v \<Longrightarrow> nullish_or v w = v"
  by (simp add: usable_def nullish_or_def)

lemma resolve_on_checks:
  assumes "resolve_on fmt ch anchor mode mentionTs year month = Inr r"
  obtains idx where "pickStartIndex fmt ch anchor mentionTs year month = Inr idx"
    and "positive (gap_fill (opens ch) idx) \<or> positive (gap_fill (closes ch) idx)"
    and "positive (lastPrice ch) \<or> positive (lastClose ch)"
    and "basis r = (if mode = ''cc'' then nullish_or (gap_fill (closes ch) idx) (gap_fill (opens ch) idx)
                    else nullish_or (gap_fill (opens ch) idx) (gap_fill (closes ch) idx))"
    and "latest r = (if mode = ''cc'' then nullish_or (lastClose ch) (lastPrice ch)
                     else nullish_or (lastPrice ch) (lastClose ch))"
  using assms
  by (auto simp: resolve_on_def Let_def split: sum.splits if_splits)

lemma scan_dates_returns:
  "\<forall>t\<in>set ts. \<exists>ymd. localYMD fmt t zone = Inr ymd \<Longrightarrow> \<exists>k. scan_dates fmt zone target ts i = Inr k"
  by (induction ts arbitrary: i) auto

lemma pickStartIndex_returns:
  assumes "targetYMD fmt ch anchor mentionTs year month = Inr target"
    and "\<forall>t\<in>set (timestamps ch). \<exists>ymd. localYMD fmt t (zone_of ch) = Inr ymd"
  shows "\<exists>idx. pickStartIndex fmt ch anchor mentionTs year month = Inr idx"
proof -
  from assms(2) obtain k where "scan_dates fmt (zone_of ch) target (timestamps ch) 0 = Inr k"
    using scan_dates_returns by blast
  then show ?thesis using assms(1) by (simp add: pickStartIndex_def)
qed

text \<open>
  The forward scan of the resolver computes the basis candidate of the specification,
  which is unique; and past \<open>pickStartIndex\<close> the resolver is a function of the two
  candidates and the two latest prices.
\<close>

lemma scan_usable_none: "\<forall>x\<in>set ys. \<not> usable x \<Longrightarrow> scan_usable ys s = s"
  by (induction ys) (auto simp: usable_def)

lemma candidate_at_gap_fill: "candidate_at xs idx (gap_fill xs idx)"
proof (cases "\<exists>j. idx \<le> j \<and> j < length xs \<and> usable (xs ! j)")
  case True
  define P where "P j \<longleftrightarrow> idx \<le> j \<and> j < length xs \<and> usable (xs ! j)" for j
  define j where "j = (LEAST j. P j)"
  from True have "\<exists>j. P j" by (simp add: P_def)
  then have "P j" unfolding j_def by (rule LeastI_ex)
  then have pj: "idx \<le> j" "j < length xs" "usable (xs ! j)" by (simp_all add: P_def)
  have least: "j \<le> i" if "P i" for i unfolding j_def using that by (rule Least_le)
  have before: "\<forall>i. idx \<le> i \<and> i < j \<longrightarrow> \<not> usable (xs ! i)"
  proof (intro allI impI notI)
    fix i assume i: "idx \<le> i \<and> i < j" and "usable (xs ! i)"
    then have "P i" using pj(2) by (simp add: P_def)
    then show False using least [of i] i by simp
  qed
  have "gap_fill xs idx = xs ! j" using pj before by (rule gap_fill_nearest)
  then show ?thesis unfolding candidate_at_def using pj before by blast
next
  case False
  then have none: "\<forall>j. idx \<le> j \<and> j < length xs \<longrightarrow> \<not> usable (xs ! j)" by blast
  have "\<forall>x\<in>set (drop idx xs). \<not> usable x"
  proof
    fix x assume "x \<in> set (drop idx xs)"
    then obtain k where k: "k < length (drop idx xs)" "x = drop idx xs ! k"
      by (metis in_set_conv_nth)
    then have "x = xs ! (idx + k)" "idx + k < length xs" by simp_all
    then show "\<not> usable x" using none by simp
  qed
  then have "scan_usable (drop idx xs) (js_nth xs idx) = js_nth xs idx"
    by (rule scan_usable_none)
  then have "gap_fill xs idx = js_nth xs idx" by (simp add: gap_fill_def Let_def)
  then show ?thesis unfolding candidate_at_def using none by simp
qed

lemma candidate_at_unique:
  assumes "candidate_at xs idx v" and "candidate_at xs idx w"
  shows "v = w"
proof -
  have first: "j = j'"
    if "idx \<le> j" "j < length xs" "usable (xs ! j)" "\<forall>i. idx \<le> i \<and> i < j \<longrightarrow> \<not> usable (xs ! i)"
       "idx \<le> j'" "j' < length xs" "usable (xs ! j')" "\<forall>i. idx \<le> i \<and> i < j' \<longrightarrow> \<not> usable (xs ! i)"
    for j j' :: nat
    using that by (meson linorder_neqE_nat)
  from assms show ?thesis unfolding candidate_at_def
    by (elim disjE exE conjE) (use first in auto)
qed

lemma resolve_on_at:
  assumes "pickStartIndex fmt ch anchor mentionTs year month = Inr idx"
  shows "resolve_on fmt ch anchor mode mentionTs year month =
     (let p = gap_fill (field_of mode ch) idx; q = gap_fill (other_field mode ch) idx
      in if \<not> positive p \<and> \<not> positive q then Inl BadStartPrices
         else if \<not> positive (lastPrice ch) \<and> \<not> positive (lastClose ch) then Inl BadLatestPrice
         else Inr \<lparr>basis = nullish_or p q,
                   latest = (if mode = ''cc'' then nullish_or (lastClose ch) (lastPrice ch)
                             else nullish_or (lastPrice ch) (lastClose ch))\<rparr>)"
  using assms by (auto simp: resolve_on_def field_of_def other_field_def Let_def)

lemma positive_nullish_or: "positive p \<Longrightarrow> nullish_or p q = p"
  by (cases p) (simp_all add: nullish_or_def)

lemma nullish_or_null: "\<not> not_null p \<Longrightarrow> nullish_or p q = q"
  by (cases p) (simp_all add: nullish_or_def)

section \<open>Properties of the bounded-concurrency map and of the ranking\<close>

lemma launch_step:
  "int (active s) < limit \<Longrightarrow> next_i s < n \<Longrightarrow>
   launch n limit s = launch n limit (s\<lparr>next_i := Suc (next_i s), active := Suc (active s),
                pending := pending s @ [next_i s]\<rparr>)"
  by (subst launch.simps) simp

lemma launch_stop: "\<not> (int (active s) < limit \<and> next_i s < n) \<Longrightarrow> launch n limit s = s"
  by (subst launch.simps) auto

lemma launch_core:
  "pool_core n limit outcome s \<Longrightarrow> pool_core n limit outcome (launch n limit s)"
proof (induction n limit s rule: launch.induct)
  case (1 n limit s)
  show ?case
  proof (cases "int (active s) < limit \<and> next_i s < n")
    case True
    let ?s = "s\<lparr>next_i := Suc (next_i s), active := Suc (active s), pending := pending s @ [next_i s]\<rparr>"
    have "pool_core n limit outcome ?s"
      using "1.prems" True unfolding pool_core_def by (auto simp: less_Suc_eq)
    then have "pool_core n limit outcome (launch n limit ?s)"
      using True by (intro "1.IH") auto
    then show ?thesis using True by (simp add: launch_step)
  next
    case False
    then show ?thesis using "1.prems" by (simp add: launch_stop)
  qed
qed

lemma launch_saturated:
  "\<not> (int (active (launch n limit s)) < limit \<and> next_i (launch n limit s) < n)"
proof (induction n limit s rule: launch.induct)
  case (1 n limit s)
  show ?case
  proof (cases "int (active s) < limit \<and> next_i s < n")
    case True
    then show ?thesis using "1.IH" by (simp add: launch_step)
  next
    case False
    then show ?thesis by (simp add: launch_stop)
  qed
qed

lemma launch_unsettled:
  "active s = length (pending s) \<Longrightarrow> next_i s \<le> n \<Longrightarrow> unsettled n (launch n limit s) = unsettled n s"
proof (induction n limit s rule: launch.induct)
  case (1 n limit s)
  show ?case
  proof (cases "int (active s) < limit \<and> next_i s < n")
    case True
    let ?s = "s\<lparr>next_i := Suc (next_i s), active := Suc (active s), pending := pending s @ [next_i s]\<rparr>"
    have a: "launch n limit s = launch n limit ?s" using True by (simp add: launch_step)
    have b: "unsettled n ?s = unsettled n s" using True by (auto simp: unsettled_def)
    have "unsettled n (launch n limit ?s) = unsettled n ?s"
      using True "1.prems" by (intro "1.IH") auto
    then show ?thesis unfolding a using b by simp
  next
    case False
    then show ?thesis by (simp add: launch_stop)
  qed
qed

lemma launch_active_mono: "active s \<le> active (launch n limit s)"
proof (induction n limit s rule: launch.induct)
  case (1 n limit s)
  show ?case
  proof (cases "int (active s) < limit \<and> next_i s < n")
    case True
    then show ?thesis using "1.IH" by (simp add: launch_step)
  next
    case False
    then show ?thesis by (simp add: launch_stop)
  qed
qed

lemma launch_starts: "int (active s) < limit \<Longrightarrow> next_i s < n \<Longrightarrow> 0 < active (launch n limit s)"
  using launch_active_mono [of "s\<lparr>next_i := Suc (next_i s), active := Suc (active s),
                pending := pending s @ [next_i s]\<rparr>" n limit]
  by (simp add: launch_step)

lemma launch_resolved: "resolved (launch n limit s) = resolved s"
proof (induction n limit s rule: launch.induct)
  case (1 n limit s)
  show ?case
  proof (cases "int (active s) < limit \<and> next_i s < n")
    case True
    then show ?thesis using "1.IH" by (simp add: launch_step)
  next
    case False
    then show ?thesis by (simp add: launch_stop)
  qed
qed


lemma distinct_removeAll_length:
  "distinct xs \<Longrightarrow> x \<in> set xs \<Longrightarrow> length (removeAll x xs) = length xs - 1"
  by (simp add: distinct_remove1_removeAll [symmetric] length_remove1)

lemma pool_core_resolved [simp]:
  "pool_core n limit outcome (s\<lparr>resolved := b\<rparr>) = pool_core n limit outcome s"
  by (simp add: pool_core_def)

lemma start_inv: "pool_inv n limit outcome (pool_start n limit)"
proof -
  let ?s0 = "\<lparr>next_i = 0, active = 0, pending = [], results = replicate n Empty, resolved = False\<rparr>
    :: 'a pool"
  have "pool_core n limit outcome ?s0" by (simp add: pool_core_def)
  then have core: "pool_core n limit outcome (pool_start n limit)"
    unfolding pool_start_def by (rule launch_core)
  have res: "\<not> resolved (pool_start n limit :: 'a pool)"
    by (simp add: pool_start_def launch_resolved)
  have "pending (pool_start n limit :: 'a pool) \<noteq> []" if "0 < n" "0 < limit"
  proof -
    have "0 < active (launch n limit ?s0)" using that by (intro launch_starts) auto
    then show ?thesis using core by (auto simp: pool_start_def pool_core_def)
  qed
  then show ?thesis using core res by (simp add: pool_inv_def)
qed

lemma settle_inv:
  assumes inv: "pool_inv n limit outcome s" and idx: "idx \<in> set (pending s)"
  shows "pool_inv n limit outcome (settle n limit outcome idx s)"
proof -
  let ?s1 = "s\<lparr>results := (results s)[idx := settled outcome idx],
                active := active s - 1, pending := removeAll idx (pending s)\<rparr>"
  from inv have core: "pool_core n limit outcome s" by (simp add: pool_inv_def)
  from inv idx have nres: "\<not> resolved s" by (auto simp: pool_inv_def)
  have lt: "idx < next_i s" "idx < n" using core idx by (auto simp: pool_core_def)
  have act: "0 < active s" using core idx by (auto simp: pool_core_def)
  have len: "length (removeAll idx (pending s)) = length (pending s) - 1"
    using core idx by (auto simp: pool_core_def distinct_removeAll_length)
  have core1: "pool_core n limit outcome ?s1"
    using core lt len unfolding pool_core_def by (auto simp: nth_list_update distinct_removeAll)
  have settle_eq: "settle n limit outcome idx s =
      (if n \<le> next_i ?s1 \<and> active ?s1 = 0 then ?s1\<lparr>resolved := True\<rparr> else launch n limit ?s1)"
    by (simp add: settle_def settled_def Let_def)
  show ?thesis
  proof (cases "n \<le> next_i ?s1 \<and> active ?s1 = 0")
    case True
    have "pool_core n limit outcome (?s1\<lparr>resolved := True\<rparr>)"
      using core1 by (simp only: pool_core_resolved)
    moreover have "pending ?s1 = []" using True core1 by (auto simp: pool_core_def)
    moreover have eq: "settle n limit outcome idx s = ?s1\<lparr>resolved := True\<rparr>"
      using True by (subst settle_eq) (rule if_P)
    moreover have "resolved (?s1\<lparr>resolved := True\<rparr>)" "pending (?s1\<lparr>resolved := True\<rparr>) = pending ?s1"
      "next_i (?s1\<lparr>resolved := True\<rparr>) = next_i ?s1" by simp_all
    ultimately show ?thesis using True unfolding eq pool_inv_def by metis
  next
    case False
    have c: "pool_core n limit outcome (launch n limit ?s1)" using core1 by (rule launch_core)
    have r: "\<not> resolved (launch n limit ?s1)" using nres by (simp add: launch_resolved)
    have "0 < active (launch n limit ?s1)" if "0 < n" "0 < limit"
    proof (cases "next_i ?s1 < n")
      case True
      have "int (active s) \<le> limit" using core act by (auto simp: pool_core_def)
      then have "int (active ?s1) < limit" using act by simp
      then show ?thesis using True by (rule launch_starts)
    next
      case False
      then have "0 < active ?s1" using \<open>\<not> (n \<le> next_i ?s1 \<and> active ?s1 = 0)\<close> by simp
      then show ?thesis using launch_active_mono [of ?s1 n limit] by simp
    qed
    then have p: "pending (launch n limit ?s1) \<noteq> []" if "0 < n" "0 < limit"
      using that c by (auto simp: pool_core_def)
    have eq: "settle n limit outcome idx s = launch n limit ?s1"
      using False by (subst settle_eq) (rule if_not_P)
    show ?thesis unfolding eq pool_inv_def using c r p by blast
  qed
qed

lemma pool_run_inv: "pool_run n limit outcome s \<Longrightarrow> pool_inv n limit outcome s"
  by (induction rule: pool_run.induct) (auto intro: start_inv settle_inv)

lemma resolved_results:
  assumes "pool_run n limit outcome s" and "resolved s"
  shows "results s = map (settled outcome) [0..<n]"
proof -
  from assms have "pool_core n limit outcome s" "n \<le> next_i s" "pending s = []"
    using pool_run_inv [OF assms(1)] by (auto simp: pool_inv_def)
  then show ?thesis
    by (intro nth_equalityI) (auto simp: pool_core_def)
qed

lemma settle_unsettled:
  assumes inv: "pool_inv n limit outcome s" and idx: "idx \<in> set (pending s)"
  shows "unsettled n (settle n limit outcome idx s) < unsettled n s"
proof -
  let ?s1 = "s\<lparr>results := (results s)[idx := settled outcome idx],
                active := active s - 1, pending := removeAll idx (pending s)\<rparr>"
  from inv have core: "pool_core n limit outcome s" by (simp add: pool_inv_def)
  have len: "length (removeAll idx (pending s)) = length (pending s) - 1" "0 < length (pending s)"
    using core idx by (auto simp: pool_core_def distinct_removeAll_length)
  then have u1: "unsettled n ?s1 < unsettled n s" by (simp add: unsettled_def)
  have "unsettled n (launch n limit ?s1) = unsettled n ?s1"
    using core len by (intro launch_unsettled) (auto simp: pool_core_def)
  moreover have "settle n limit outcome idx s =
      (if n \<le> next_i ?s1 \<and> active ?s1 = 0 then ?s1\<lparr>resolved := True\<rparr> else launch n limit ?s1)"
    by (simp add: settle_def settled_def Let_def)
  moreover have "unsettled n (?s1\<lparr>resolved := True\<rparr>) = unsettled n ?s1"
    by (simp add: unsettled_def)
  ultimately show ?thesis using u1 by presburger
qed

lemma run_resolves:
  assumes "0 < n" and "0 < limit"
  shows "pool_run n limit outcome s \<Longrightarrow> \<exists>s'. pool_run n limit outcome s' \<and> resolved s'"
proof (induction "unsettled n s" arbitrary: s rule: less_induct)
  case less
  show ?case
  proof (cases "resolved s")
    case True
    then show ?thesis using less.prems by blast
  next
    case False
    have inv: "pool_inv n limit outcome s" using less.prems by (rule pool_run_inv)
    then have "pending s \<noteq> []" using False assms by (simp add: pool_inv_def)
    then obtain idx where idx: "idx \<in> set (pending s)" by (cases "pending s") auto
    have "pool_run n limit outcome (settle n limit outcome idx s)"
      using less.prems idx by (rule pool_run.step)
    moreover have "unsettled n (settle n limit outcome idx s) < unsettled n s"
      using inv idx by (rule settle_unsettled)
    ultimately show ?thesis using less.hyps by blast
  qed
qed

lemma mapLimit_iff:
  assumes "items \<noteq> []" and "0 < limit"
  shows "mapLimit items limit outcome rs \<longleftrightarrow> rs = map (settled outcome) [0..<length items]"
proof
  assume "mapLimit items limit outcome rs"
  then show "rs = map (settled outcome) [0..<length items]"
    by (auto simp: mapLimit_def dest: resolved_results)
next
  assume rs: "rs = map (settled outcome) [0..<length items]"
  have "pool_run (length items) limit outcome (pool_start (length items) limit)"
    by (rule pool_run.start)
  then obtain s' where s': "pool_run (length items) limit outcome s'" "resolved s'"
    using run_resolves [of "length items" limit outcome] assms by auto
  then have "results s' = rs" using rs by (simp add: resolved_results)
  then show "mapLimit items limit outcome rs" using s' by (auto simp: mapLimit_def)
qed

lemma limit_of_pos: "0 < limit_of options"
  by (simp add: limit_of_def Let_def split: option.splits)

lemma concurrency_of_pos: "0 < concurrency_of options"
  by (simp add: concurrency_of_def Let_def split: option.splits)

lemma concurrency_of_le: "concurrency_of options \<le> 10"
  by (simp add: concurrency_of_def Let_def split: option.splits)

lemma batch_nonempty: "items \<noteq> [] \<Longrightarrow> take (nat (limit_of options)) items \<noteq> []"
  using limit_of_pos [of options] by (cases items) (auto simp: take_Cons')

lemma computeGainers_iff:
  "computeGainers fmt envs items options year month out \<longleftrightarrow>
   out = ranked_gains fmt envs items options year month"
proof
  assume "computeGainers fmt envs items options year month out"
  then show "out = ranked_gains fmt envs items options year month"
  proof (cases rule: computeGainers.cases)
    case no_items
    then show ?thesis by (simp add: ranked_gains_def)
  next
    case (ranked batch rs)
    have "batch \<noteq> []" unfolding ranked(3) using ranked(2) by (rule batch_nonempty)
    then have "rs = map (settled (gain_worker fmt envs batch options year month)) [0..<length batch]"
      using ranked(4) concurrency_of_pos [of options] by (simp add: mapLimit_iff)
    then show ?thesis using ranked(1,2,3) by (simp add: ranked_gains_def Let_def)
  qed
next
  assume out: "out = ranked_gains fmt envs items options year month"
  show "computeGainers fmt envs items options year month out"
  proof (cases "items = []")
    case True
    then show ?thesis using out by (simp add: ranked_gains_def computeGainers.no_items)
  next
    case False
    let ?batch = "take (nat (limit_of options)) items"
    let ?rs = "map (settled (gain_worker fmt envs ?batch options year month)) [0..<length ?batch]"
    have "?batch \<noteq> []" using False by (rule batch_nonempty)
    then have "mapLimit ?batch (concurrency_of options) (gain_worker fmt envs ?batch options year month) ?rs"
      using concurrency_of_pos [of options] by (simp add: mapLimit_iff)
    then have "computeGainers fmt envs items options year month (js_sort by_pct (filter_Boolean ?rs))"
      using False by (intro computeGainers.ranked) auto
    then show ?thesis using out False by (simp add: ranked_gains_def Let_def)
  qed
qed

lemma settled_gain_worker:
  "settled (gain_worker fmt envs batch options year month) k =
     Filled (case fetched fmt envs batch options year month k of
               Inl e \<Rightarrow> None
             | Inr r \<Rightarrow> Some \<lparr>basis = basis r, latest = latest r, info = batch ! k, pct = pct_of r\<rparr>)"
  by (simp add: settled_def gain_worker_def)

lemma length_filter_Boolean:
  "length (filter_Boolean (map (settled (gain_worker fmt envs batch options year month)) ks)) =
   length (filter (\<lambda>k. \<not> failed fmt envs batch options year month k) ks)"
  by (induction ks) (auto simp: settled_gain_worker failed_def split: sum.splits)

lemma one_failure_count:
  assumes "k < n" and "P k" and "\<forall>j<n. j \<noteq> k \<longrightarrow> \<not> P j"
  shows "length (filter (\<lambda>j. \<not> P j) [0..<n]) = n - 1"
proof -
  have "{i. i < length [0..<n] \<and> P ([0..<n] ! i)} = {k}"
    using assms by auto
  then have "length (filter P [0..<n]) = 1"
    by (simp only: length_filter_conv_card) simp
  moreover have "length (filter P [0..<n]) + length (filter (\<lambda>j. \<not> P j) [0..<n]) = n"
    using sum_length_filter_compl [of P "[0..<n]"] by simp
  ultimately show ?thesis by simp
qed


lemma js_le_trans: "js_le a b \<Longrightarrow> js_le b c \<Longrightarrow> js_le a c"
  by (cases a; cases b; cases c) auto

lemma js_lt_imp_le: "js_lt a b \<Longrightarrow> js_le a b"
  by (cases a; cases b) auto

lemma js_not_lt_le: "a \<noteq> NaN \<Longrightarrow> b \<noteq> NaN \<Longrightarrow> \<not> js_lt a b \<Longrightarrow> js_le b a"
  by (cases a; cases b) auto

lemma by_pct_gt:
  "pct a \<noteq> NaN \<Longrightarrow> pct b \<noteq> NaN \<Longrightarrow> js_gt (by_pct a b) (Fin 0) \<longleftrightarrow> js_lt (pct a) (pct b)"
  by (cases "pct a"; cases "pct b") (auto simp: by_pct_def js_sub_def js_gt_def)

lemma sorted_insert_by_pct:
  assumes "pct x \<noteq> NaN" and "\<forall>g\<in>set ys. pct g \<noteq> NaN"
    and "sorted_wrt (\<lambda>a b. js_le (pct b) (pct a)) ys"
  shows "sorted_wrt (\<lambda>a b. js_le (pct b) (pct a)) (insert_cmp by_pct x ys)"
  using assms(2,3)
proof (induction ys)
  case Nil
  show ?case by simp
next
  case (Cons y ys)
  have y: "pct y \<noteq> NaN" using Cons.prems(1) by simp
  show ?case
  proof (cases "js_lt (pct x) (pct y)")
    case True
    then have "js_le (pct x) (pct y)" by (rule js_lt_imp_le)
    moreover have "sorted_wrt (\<lambda>a b. js_le (pct b) (pct a)) (insert_cmp by_pct x ys)"
      using Cons by simp
    ultimately show ?thesis
      using True Cons.prems(2) assms(1) y by (auto simp: by_pct_gt set_insert_cmp)
  next
    case False
    then have xy: "js_le (pct y) (pct x)" using assms(1) y by (intro js_not_lt_le) auto
    have "js_le (pct z) (pct x)" if "z \<in> set ys" for z
    proof -
      have "js_le (pct z) (pct y)" using Cons.prems(2) that by simp
      then show ?thesis using xy by (rule js_le_trans)
    qed
    then show ?thesis using False xy Cons.prems(2) assms(1) y by (auto simp: by_pct_gt)
  qed
qed

lemma sorted_js_sort_by_pct:
  "\<forall>g\<in>set xs. pct g \<noteq> NaN \<Longrightarrow> sorted_wrt (\<lambda>a b. js_le (pct b) (pct a)) (js_sort by_pct xs)"
proof (induction xs)
  case Nil
  show ?case by (simp add: js_sort_def)
next
  case (Cons x xs)
  have "sorted_wrt (\<lambda>a b. js_le (pct b) (pct a)) (insert_cmp by_pct x (js_sort by_pct xs))"
    using Cons by (intro sorted_insert_by_pct) (auto simp: set_js_sort)
  then show ?case by (simp add: js_sort_def)
qed

lemma ranked_gains_length:
  assumes "int (length items) \<le> limit_of options"
  shows "length (ranked_gains fmt envs items options year month) =
         length (filter (\<lambda>k. \<not> failed fmt envs items options year month k) [0..<length items])"
proof (cases "items = []")
  case True
  then show ?thesis by (simp add: ranked_gains_def)
next
  case False
  have "take (nat (limit_of options)) items = items" using assms by simp
  then show ?thesis using False
    by (simp add: ranked_gains_def Let_def length_js_sort length_filter_Boolean)
qed

lemma pool_ceiling:
  assumes "pool_run n limit outcome s" and "0 \<le> limit"
  shows "int (active s) \<le> limit \<and> active s = length (pending s)"
  using pool_run_inv [OF assms(1)] assms(2) by (auto simp: pool_inv_def pool_core_def)

lemma empty_never_resolves: "pool_run 0 limit outcome s \<Longrightarrow> \<not> resolved s \<and> pending s = []"
proof (induction rule: pool_run.induct)
  case start
  show ?case by (simp add: pool_start_def launch_stop)
next
  case (step s idx)
  then show ?case by simp
qed

subsection \<open>Counting the mentions of a month\<close>

text \<open>
  C1, as stated for every target month, fails for the months of the years 0 to 99:
  \<open>startOfMonthUTC\<close> hands the year to \<open>Date.UTC\<close>, which reads a year from 0 to 99
  as 1900 plus that year. A mention of May 99, whose own month key is \<open>99-05\<close>, is
  compared with the start of May 1999 and is absent from the aggregation of year 99,
  month 5.
\<close>

theorem two_digit_year_counterexample:
  "getUTCFullYear (newDate (timestamp mention_99)) = Some 99 \<and>
   getUTCMonth (newDate (timestamp mention_99)) = Some 4 \<and>
   ticker mention_99 = Some ''OLD'' \<and>
   month_key mention_99 = ''99-05'' \<and>
   startOfMonthUTC (Fin 99) (Fin 5) = startOfMonthUTC (Fin 1999) (Fin 5) \<and>
   fst (buildMonthAgg [mention_99] (Fin 99) (Fin 5)) = []"
  by code_simp

text \<open>
  C1, amended. For every collection of mention records and every target month of year
  \<open>y\<close> and month \<open>m\<close>, with \<open>y\<close> from 100 on (up to 275759, the last year that
  lies wholly within the range of \<open>Date\<close>) and \<open>m\<close> from 1 to 12: a record with a
  present, non-empty ticker \<open>t\<close> whose timestamp has the UTC year \<open>y\<close> and the UTC
  month \<open>m\<close> (\<open>getUTCMonth\<close> counts from 0) contributes. The ticker map of the
  aggregation has an entry under the uppercased ticker, and its \<open>countMTD\<close> is
  exactly the number of records of the collection whose timestamp has that UTC year and
  month and whose ticker is non-empty and equal to \<open>t\<close> up to letter case.
\<close>

theorem countMTD_counts_month_mentions:
  assumes "100 \<le> y" and "y \<le> 275759" and "1 \<le> m" and "m \<le> 12"
    and "e \<in> set entries" and "ticker e = Some t" and "t \<noteq> []"
    and "getUTCFullYear (newDate (timestamp e)) = Some y"
    and "getUTCMonth (newDate (timestamp e)) = Some (m - 1)"
  shows "\<exists>a. map_of (fst (buildMonthAgg entries (Fin (of_int y)) (Fin (of_int m)))) (toUpperCase t) = Some a \<and>
           countMTD a = length (filter (\<lambda>r. getUTCFullYear (newDate (timestamp r)) = Some y \<and>
             getUTCMonth (newDate (timestamp r)) = Some (m - 1) \<and>
             (case ticker r of None \<Rightarrow> False
              | Some u \<Rightarrow> u \<noteq> [] \<and> toUpperCase u = toUpperCase t)) entries)"
proof -
  note plain = isInMonth_plain [OF assms(1-4)]
  have "isInMonth (timestamp e) (startOfMonthUTC (Fin (of_int y)) (Fin (of_int m)))"
    using assms(8,9) by (simp add: plain)
  from countMTD_in_month [OF assms(5-7) this]
  show ?thesis by (simp add: plain conj_assoc)
qed

theorem countMTD_counts_month_mentions_witness:
  "\<exists>a. map_of (fst (buildMonthAgg mentions (Fin 2024) (Fin 3))) ''XYZ'' = Some a \<and> countMTD a = 2"
proof -
  have h1: "mention2 \<in> set mentions" by (simp add: mentions_def)
  have h2: "ticker mention2 = Some ''xyz''" by (simp add: mention2_def)
  have h3: "''xyz'' \<noteq> []" by simp
  have h4: "getUTCFullYear (newDate (timestamp mention2)) = Some 2024" by code_simp
  have h5: "getUTCMonth (newDate (timestamp mention2)) = Some (3 - 1)" by code_simp
  have up: "toUpperCase ''xyz'' = ''XYZ''" by code_simp
  have len: "length (filter (\<lambda>r. getUTCFullYear (newDate (timestamp r)) = Some 2024 \<and>
             getUTCMonth (newDate (timestamp r)) = Some (3 - 1) \<and>
             (case ticker r of None \<Rightarrow> False
              | Some u \<Rightarrow> u \<noteq> [] \<and> toUpperCase u = ''XYZ'')) mentions) = 2"
    by code_simp
  have "\<exists>a. map_of (fst (buildMonthAgg mentions (Fin (of_int 2024)) (Fin (of_int 3)))) (toUpperCase ''xyz'') = Some a \<and>
           countMTD a = length (filter (\<lambda>r. getUTCFullYear (newDate (timestamp r)) = Some 2024 \<and>
             getUTCMonth (newDate (timestamp r)) = Some (3 - 1) \<and>
             (case ticker r of None \<Rightarrow> False
              | Some u \<Rightarrow> u \<noteq> [] \<and> toUpperCase u = toUpperCase ''xyz'')) mentions)"
    by (rule countMTD_counts_month_mentions [OF _ _ _ _ h1 h2 h3 h4 h5]) simp_all
  then show ?thesis unfolding up len by simp
qed

subsection \<open>One ordered aggregate per ticker\<close>

text \<open>
  C7. For every collection and month, the ticker map of the aggregation holds no key
  twice, every record of the month with a non-empty ticker has exactly one aggregate,
  filed under its uppercased ticker, and every aggregate satisfies
  \<open>firstTs \<le> lastTs\<close>.
\<close>

theorem aggregates_ordered_and_unique:
  "distinct (map fst (fst (buildMonthAgg entries year month))) \<and>
   (\<forall>e\<in>set entries. \<forall>t. in_month year month e \<and> ticker e = Some t \<and> t \<noteq> [] \<longrightarrow>
      (\<exists>!a. (toUpperCase t, a) \<in> set (fst (buildMonthAgg entries year month)))) \<and>
   (\<forall>(k, a)\<in>set (fst (buildMonthAgg entries year month)). js_le (firstTs a) (lastTs a))"
proof (intro conjI ballI allI impI)
  let ?bt = "fst (buildMonthAgg entries year month)"
  show d: "distinct (map fst ?bt)"
    unfolding byTicker_eq by (rule distinct_foldl) simp
  show "case x of (k, a) \<Rightarrow> js_le (firstTs a) (lastTs a)" if "x \<in> set ?bt" for x
  proof -
    have "\<forall>e\<in>set (filter (in_month year month) entries). \<exists>r. timestamp e = Fin r"
      by (auto simp: in_month_def dest: isInMonth_finite)
    then have "\<forall>(k, a)\<in>set ?bt. ordered_agg a"
      unfolding byTicker_eq by (rule ordered_foldl) simp
    then show ?thesis using that by (auto dest: ordered_agg_le)
  qed
  show "\<exists>!a. (toUpperCase t, a) \<in> set ?bt"
    if "e \<in> set entries" and "in_month year month e \<and> ticker e = Some t \<and> t \<noteq> []" for e t
  proof -
    have "sym_of e = Some (toUpperCase t)" using that(2) by (simp add: sym_of_Some)
    then have "toUpperCase t \<in> set (map fst ?bt)"
      unfolding byTicker_eq keys_foldl using that by auto
    then obtain a where "(toUpperCase t, a) \<in> set ?bt" by auto
    moreover have "a' = a''" if "(toUpperCase t, a') \<in> set ?bt" "(toUpperCase t, a'') \<in> set ?bt"
      for a' a'' using d that by (meson eq_key_imp_eq_value)
    ultimately show ?thesis by blast
  qed
qed

theorem aggregates_ordered_and_unique_witness:
  "map fst (fst (buildMonthAgg mentions (Fin 2024) (Fin 3))) = [''XYZ''] \<and>
   (\<exists>!a. (''XYZ'', a) \<in> set (fst (buildMonthAgg mentions (Fin 2024) (Fin 3)))) \<and>
   (\<exists>a. (''XYZ'', a) \<in> set (fst (buildMonthAgg mentions (Fin 2024) (Fin 3))) \<and>
        js_le (firstTs a) (lastTs a))"
proof -
  let ?bt = "fst (buildMonthAgg mentions (Fin 2024) (Fin 3))"
  have keys: "map fst ?bt = [''XYZ'']"
    by code_simp
  have h1: "mention1 \<in> set mentions" by (simp add: mentions_def)
  have h2: "in_month (Fin 2024) (Fin 3) mention1 \<and> ticker mention1 = Some ''XYZ'' \<and> ''XYZ'' \<noteq> []"
    by code_simp
  have up: "toUpperCase ''XYZ'' = ''XYZ''" by code_simp
  note main = aggregates_ordered_and_unique [of mentions "Fin 2024" "Fin 3"]
  from main h1 h2 have "\<exists>!a. (toUpperCase ''XYZ'', a) \<in> set ?bt"
    by blast
  then have one: "\<exists>!a. (''XYZ'', a) \<in> set ?bt" by (simp add: up)
  then obtain a where a: "(''XYZ'', a) \<in> set ?bt" by blast
  with main have "js_le (firstTs a) (lastTs a)" by blast
  with a keys one show ?thesis by blast
qed

subsection \<open>Ticker normalisation\<close>

text \<open>
  C3, as the specification words it (tickers are trimmed and uppercased, so tickers that
  differ only in letter case and surrounding blanks share one aggregate), fails: the
  code uppercases and never trims. The tickers \<open>" xyz"\<close> and \<open>"XYZ"\<close> have the same
  normal form under the specification's rule, and the aggregation of two March mentions
  carrying them keeps two aggregates, the first under a key with the blank.
\<close>

theorem trimmed_tickers_collapse_counterexample:
  "normalize_spec '' xyz'' = normalize_spec ''XYZ'' \<and>
   map fst (fst (buildMonthAgg [mention_blank, mention1] (Fin 2024) (Fin 3))) = ['' XYZ'', ''XYZ'']"
  by code_simp

text \<open>
  C3, amended. For every collection and month, the keys of the ticker map are exactly
  the uppercased tickers (uppercased only, not trimmed) of the records of the month whose
  ticker is present and non-empty, each key once: a record without a ticker or with the
  empty ticker is discarded, and records of the month whose tickers differ only in letter
  case share the one aggregate under the uppercased symbol.
\<close>

theorem keys_are_uppercased_tickers:
  "set (map fst (fst (buildMonthAgg entries year month))) =
     {s. \<exists>e\<in>set entries. in_month year month e \<and>
           (case ticker e of None \<Rightarrow> False | Some t \<Rightarrow> t \<noteq> [] \<and> s = toUpperCase t)} \<and>
   distinct (map fst (fst (buildMonthAgg entries year month)))"
proof
  have "\<And>e s. sym_of e = Some s \<longleftrightarrow>
      (case ticker e of None \<Rightarrow> False | Some t \<Rightarrow> t \<noteq> [] \<and> s = toUpperCase t)"
    by (auto simp: sym_of_Some split: option.splits)
  then show "set (map fst (fst (buildMonthAgg entries year month))) =
     {s. \<exists>e\<in>set entries. in_month year month e \<and>
           (case ticker e of None \<Rightarrow> False | Some t \<Rightarrow> t \<noteq> [] \<and> s = toUpperCase t)}"
    unfolding byTicker_eq keys_foldl by auto
  show "distinct (map fst (fst (buildMonthAgg entries year month)))"
    unfolding byTicker_eq by (rule distinct_foldl) simp
qed

theorem keys_are_uppercased_tickers_witness:
  "toUpperCase ''xyz'' = ''XYZ'' \<and>
   ''XYZ'' \<in> set (map fst (fst (buildMonthAgg mentions (Fin 2024) (Fin 3)))) \<and>
   distinct (map fst (fst (buildMonthAgg mentions (Fin 2024) (Fin 3))))"
proof -
  have up: "toUpperCase ''xyz'' = ''XYZ''" by code_simp
  have h1: "mention2 \<in> set mentions" by (simp add: mentions_def)
  have h2: "in_month (Fin 2024) (Fin 3) mention2" by code_simp
  have h3: "ticker mention2 = Some ''xyz''" by (simp add: mention2_def)
  have "''XYZ'' \<in> {s. \<exists>e\<in>set mentions. in_month (Fin 2024) (Fin 3) e \<and>
           (case ticker e of None \<Rightarrow> False | Some t \<Rightarrow> t \<noteq> [] \<and> s = toUpperCase t)}"
    using h1 h2 h3 up by force
  then show ?thesis
    using keys_are_uppercased_tickers [of mentions "Fin 2024" "Fin 3"] up by simp
qed

subsection \<open>The list of months\<close>

text \<open>
  C9. The list is duplicate-free and UTC-derived, but it is not newest first for every
  collection, although the function says so (\<open>// Sort descending (newest first)\<close>): the
  keys are sorted as text, and the year is written without padding while the month is
  padded to two digits. For a mention of May 999 and one of March 2024 the function
  returns \<open>["999-05", "2024-03"]\<close>, the key of the older month first.
\<close>

theorem older_month_listed_first:
  "getAvailableMonths [mention_999, mention1] = [''999-05'', ''2024-03''] \<and>
   getAvailableMonths [mention_999, mention1] = [key_of_month (999, 5), key_of_month (2024, 3)] \<and>
   getUTCFullYear (newDate (timestamp mention_999)) = Some 999 \<and>
   getUTCMonth (newDate (timestamp mention_999)) = Some 4 \<and>
   getUTCFullYear (newDate (timestamp mention1)) = Some 2024 \<and>
   getUTCMonth (newDate (timestamp mention1)) = Some 2 \<and>
   later_month (2024, 3) (999, 5)"
  by code_simp

text \<open>
  C10. \<open>getAvailableMonths\<close> does not skip a record whose timestamp fails to parse:
  whenever the collection holds such a record, the returned list contains the literal key
  \<open>NaN-NaN\<close>, while the filter of the month aggregation leaves the record out for
  every month.
\<close>

theorem unparsed_timestamp_listed:
  assumes "e \<in> set entries" and "timestamp e = NaN"
  shows "''NaN-NaN'' \<in> set (getAvailableMonths entries) \<and>
         e \<notin> set (filter (in_month year month) entries)"
proof
  have "month_key e = ''NaN-NaN''" using assms(2) by (rule month_key_NaN)
  then show "''NaN-NaN'' \<in> set (getAvailableMonths entries)"
    using assms(1) unfolding set_getAvailableMonths by force
  show "e \<notin> set (filter (in_month year month) entries)"
    using assms(2) isInMonth_finite [of "timestamp e"] by (auto simp: in_month_def)
qed

theorem unparsed_timestamp_listed_witness:
  "getAvailableMonths mentions = [''NaN-NaN'', ''2024-03'', ''2024-02''] \<and>
   ''NaN-NaN'' \<in> set (getAvailableMonths mentions) \<and>
   mention_bad \<notin> set (filter (in_month (Fin 2024) (Fin 3)) mentions)"
proof -
  have h1: "mention_bad \<in> set mentions" by (simp add: mentions_def)
  have h2: "timestamp mention_bad = NaN" by (simp add: mention_bad_def)
  have l: "getAvailableMonths mentions = [''NaN-NaN'', ''2024-03'', ''2024-02'']" by code_simp
  show ?thesis
    using unparsed_timestamp_listed [OF h1 h2, of "Fin 2024" "Fin 3"] l by simp
qed

subsection \<open>The range bucket of the fetch\<close>

text \<open>
  C6, as stated for every \<open>fromTimestamp\<close>, fails at the timestamp 0 (1 January 1970,
  which is what the start of the month 1970-01 is): \<open>fromTsMs || Date.now()\<close> replaces
  it by the current time. In March 2024 the code asks for one month, the formula of the
  claim for five years.
\<close>

theorem range_bucket_counterexample:
  "chart_range 1709632800000 1709632800000 (Fin 0) = ''1mo'' \<and>
   spec_range (spec_elapsed_days 1709632800000 0) = ''5y''"
  by code_simp

text \<open>
  C6, amended. For every symbol and every \<open>fromTimestamp\<close> that is a number other
  than 0, the fetch computes elapsed days as max(1, floor((now - fromTimestamp) / 1 day))
  and selects "1mo" when elapsed days \<open>\<le> 30\<close>, "3mo" when \<open>\<le> 62\<close>, "1y" when
  \<open>\<le> 370\<close> and "5y" otherwise, the series being cached and looked up under
  \<open>symbol|range\<close>; a \<open>fromTimestamp\<close> that is 0 or NaN is replaced by the current
  time, which gives 1 elapsed day and the bucket "1mo".
\<close>

theorem range_bucket:
  "(f \<noteq> 0 \<longrightarrow>
      elapsed_days now1 now2 (Fin f) = Fin (of_int (spec_elapsed_days now1 f)) \<and>
      chart_range now1 now2 (Fin f) = spec_range (spec_elapsed_days now1 f) \<and>
      (chartCache (symbol @ ''|'' @ spec_range (spec_elapsed_days now1 f)) = Some ch \<longrightarrow>
         getYahooChart http now1 now2 chartCache symbol (Fin f) = (Inr ch, chartCache))) \<and>
   (\<not> truthy x \<longrightarrow> elapsed_days now now x = Fin 1 \<and> chart_range now now x = ''1mo'')"
proof (intro conjI impI)
  assume f: "f \<noteq> 0"
  then show d: "elapsed_days now1 now2 (Fin f) = Fin (of_int (spec_elapsed_days now1 f))"
    by (rule elapsed_days_number)
  then show r: "chart_range now1 now2 (Fin f) = spec_range (spec_elapsed_days now1 f)"
    by (simp add: chart_range_def range_of_days_int)
  show "getYahooChart http now1 now2 chartCache symbol (Fin f) = (Inr ch, chartCache)"
    if "chartCache (symbol @ ''|'' @ spec_range (spec_elapsed_days now1 f)) = Some ch"
    using that r by (intro getYahooChart_hit) (simp add: cacheKey_def)
next
  assume x: "\<not> truthy x"
  then show "elapsed_days now now x = Fin 1" by (rule elapsed_days_falsy)
  then show "chart_range now now x = ''1mo''"
    by (simp add: chart_range_def range_of_days_def)
qed

theorem range_bucket_witness:
  "elapsed_days 1709632800000 1709632800000 (Fin 1609251200000) = Fin 1161 \<and>
   chart_range 1709632800000 1709632800000 (Fin 1609251200000) = ''5y'' \<and>
   chart_range 1709632800000 1709632800000 NaN = ''1mo''"
proof -
  have h: "(1609251200000::real) \<noteq> 0" by simp
  have e: "spec_elapsed_days 1709632800000 1609251200000 = 1161" by code_simp
  have s: "spec_range 1161 = ''5y''" by code_simp
  have t: "\<not> truthy NaN" by simp
  show ?thesis
    using range_bucket [of 1609251200000 1709632800000 1709632800000 Map.empty "[]"
        march_chart march_http NaN 1709632800000] h t
    by (simp add: e s)
qed

subsection \<open>Resolving against a cached series\<close>

text \<open>
  C8. A cache hit on the key \<open>symbol|range\<close> returns the stored series unchanged and
  asks the network nothing; and when \<open>fetchBasisAndLatest\<close> is called twice with the
  same symbol, mention timestamp, options and month, the series being in the cache after
  the first call and the second call falling into the same range bucket, the second call
  returns the same result as the first and leaves the cache as it was, whatever the
  network would answer.
\<close>

theorem resolve_idempotent:
  assumes "fetchBasisAndLatest fmt http now1 now2 chartCache symbol mentionTs options year month
             = (res1, cache1)"
    and "fetchBasisAndLatest fmt http' now1' now2' cache1 symbol mentionTs options year month
             = (res2, cache2)"
    and "chart_range now1' now2'
           (if anchor_of options = ''month'' then startOfMonthUTC year month else mentionTs)
         = chart_range now1 now2
           (if anchor_of options = ''month'' then startOfMonthUTC year month else mentionTs)"
    and "cache1 (cacheKey symbol (chart_range now1 now2
           (if anchor_of options = ''month'' then startOfMonthUTC year month else mentionTs))) = Some ch"
  shows "res2 = res1 \<and> cache2 = cache1 \<and>
         getYahooChart http' now1' now2' cache1 symbol
           (if anchor_of options = ''month'' then startOfMonthUTC year month else mentionTs)
         = (Inr ch, cache1)"
proof -
  let ?from = "if anchor_of options = ''month'' then startOfMonthUTC year month else mentionTs"
  let ?res = "resolve_on fmt ch (anchor_of options) (mode_of options) mentionTs year month"
  obtain g c where g: "getYahooChart http now1 now2 chartCache symbol ?from = (g, c)"
    by (cases "getYahooChart http now1 now2 chartCache symbol ?from")
  have c: "c = cache1" using assms(1) g
    by (auto simp: fetchBasisAndLatest_def Let_def split: sum.splits)
  from g have "getYahooChart http now1 now2 chartCache symbol ?from = (g, cache1)"
    unfolding c .
  then have "g = Inr ch" using assms(4) by (rule getYahooChart_cached)
  then have r1: "res1 = ?res" using assms(1) g
    by (simp add: fetchBasisAndLatest_def Let_def)
  have hit: "getYahooChart http' now1' now2' cache1 symbol ?from = (Inr ch, cache1)"
    using assms(3,4) by (intro getYahooChart_hit) simp
  then have "res2 = ?res" "cache2 = cache1" using assms(2)
    by (simp_all add: fetchBasisAndLatest_def Let_def)
  then show ?thesis using r1 hit by simp
qed

theorem resolve_idempotent_witness:
  "fst (fetchBasisAndLatest utc_format failing_http 1709632800000 1709632800000
     (snd (fetchBasisAndLatest utc_format march_http 1709632800000 1709632800000 Map.empty
        ''XYZ'' (Fin 1709380800000) (Some mention_oc) (Fin 2024) (Fin 3)))
     ''XYZ'' (Fin 1709380800000) (Some mention_oc) (Fin 2024) (Fin 3))
   = Inr \<lparr>basis = Number (Fin 12), latest = Number (Fin 15)\<rparr>"
proof -
  let ?first = "fetchBasisAndLatest utc_format march_http 1709632800000 1709632800000 Map.empty
        ''XYZ'' (Fin 1709380800000) (Some mention_oc) (Fin 2024) (Fin 3)"
  let ?second = "fetchBasisAndLatest utc_format failing_http 1709632800000 1709632800000
     (snd ?first) ''XYZ'' (Fin 1709380800000) (Some mention_oc) (Fin 2024) (Fin 3)"
  have h1: "?first = (fst ?first, snd ?first)" by simp
  have h2: "?second = (fst ?second, snd ?second)" by simp
  have h4: "snd ?first (cacheKey ''XYZ'' (chart_range 1709632800000 1709632800000
           (if anchor_of (Some mention_oc) = ''month'' then startOfMonthUTC (Fin 2024) (Fin 3)
            else Fin 1709380800000))) = Some march_chart"
    by code_simp
  have r: "fst ?first = Inr \<lparr>basis = Number (Fin 12), latest = Number (Fin 15)\<rparr>"
    by code_simp
  from resolve_idempotent [OF h1 h2 refl h4] r show ?thesis by simp
qed

subsection \<open>Positive basis and latest\<close>

text \<open>
  C2. The resolver fails when neither basis candidate or neither latest candidate is
  positive; but it checks the pair and then returns the candidate that the mode prefers
  whenever that one is not null, positive or not. For a series whose open is 0 and whose
  close is 10, mode "oc" returns the basis 0, which is not positive.
\<close>

theorem zero_open_gives_zero_basis:
  "fst (fetchBasisAndLatest utc_format zero_open_http 1709632800000 1709632800000 Map.empty
     ''ZERO'' (Fin 1709380800000) (Some month_oc) (Fin 2024) (Fin 3))
   = Inr \<lparr>basis = Number (Fin 0), latest = Number (Fin 12)\<rparr> \<and>
   \<not> positive (Number (Fin 0))"
  by code_simp

subsection \<open>The basis index and the basis value\<close>

text \<open>
  C5, as stated for every price series, fails for a series whose field of the mode
  holds no finite value at or after the basis index: the resolver then falls back
  (\<open>startOpen ?? startClose\<close>) to the other field. For a series of one day with a close
  of 10 and no open, mode "oc" returns the basis 10, which is the close.
\<close>

theorem basis_from_other_field_counterexample:
  "fst (fetchBasisAndLatest utc_format null_open_http 1709632800000 1709632800000 Map.empty
     ''NOOPEN'' (Fin 1709380800000) (Some month_oc) (Fin 2024) (Fin 3))
   = Inr \<lparr>basis = Number (Fin 10), latest = Number (Fin 12)\<rparr> \<and>
   mode_of (Some month_oc) = ''oc'' \<and>
   r_open null_open_result = Array [Null] \<and>
   r_close null_open_result = Array [Number (Fin 10)]"
  by code_simp

text \<open>
  C5, amended. For every series and resolver call for which the target date is
  computed: \<open>pickStartIndex\<close> returns whenever the formatter accepts the zone and the
  timestamps of the series, and the index it returns is the first index, in ascending
  order, whose exchange-local date is on or after the target date, and 0 when there is
  no such index. Each of the two fields has a basis candidate: the value of the field at
  that index or, if that value is null or not finite, at the nearest later index that
  holds a finite value of the same field; when no such index exists, the value at the
  index itself. The resolver fails with "bad start prices" when neither candidate is
  positive and with "bad latest price" when one is but neither latest price is; and
  when one of the latest prices is positive it returns, with the basis equal to the
  candidate of the mode's field (closes for "cc", opens otherwise) when that candidate
  is positive, and equal to the candidate of the other field when the candidate of the
  mode's field is null or \<open>undefined\<close> and the other one is positive.
\<close>

theorem basis_index_and_value:
  assumes "targetYMD fmt ch anchor mentionTs year month = Inr target"
  shows "((\<forall>t\<in>set (timestamps ch). \<exists>ymd. localYMD fmt t (zone_of ch) = Inr ymd) \<longrightarrow>
            (\<exists>idx. pickStartIndex fmt ch anchor mentionTs year month = Inr idx)) \<and>
         (\<forall>idx. pickStartIndex fmt ch anchor mentionTs year month = Inr idx \<longrightarrow>
            (if \<exists>i<length (timestamps ch). on_or_after fmt ch target i
             then idx < length (timestamps ch) \<and> on_or_after fmt ch target idx \<and>
                  (\<forall>j<idx. \<not> on_or_after fmt ch target j)
             else idx = 0) \<and>
            (\<exists>p q. candidate_at (field_of mode ch) idx p \<and>
                   candidate_at (other_field mode ch) idx q \<and>
               (\<not> positive p \<and> \<not> positive q \<longrightarrow>
                  resolve_on fmt ch anchor mode mentionTs year month = Inl BadStartPrices) \<and>
               ((positive p \<or> positive q) \<and>
                \<not> positive (lastPrice ch) \<and> \<not> positive (lastClose ch) \<longrightarrow>
                  resolve_on fmt ch anchor mode mentionTs year month = Inl BadLatestPrice) \<and>
               (positive (lastPrice ch) \<or> positive (lastClose ch) \<longrightarrow>
                  (positive p \<longrightarrow>
                     (\<exists>r. resolve_on fmt ch anchor mode mentionTs year month = Inr r \<and>
                          basis r = p)) \<and>
                  (\<not> not_null p \<and> positive q \<longrightarrow>
                     (\<exists>r. resolve_on fmt ch anchor mode mentionTs year month = Inr r \<and>
                          basis r = q)))))"
proof (intro conjI impI allI)
  assume "\<forall>t\<in>set (timestamps ch). \<exists>ymd. localYMD fmt t (zone_of ch) = Inr ymd"
  with assms show "\<exists>idx. pickStartIndex fmt ch anchor mentionTs year month = Inr idx"
    by (rule pickStartIndex_returns)
next
  fix idx
  assume pick: "pickStartIndex fmt ch anchor mentionTs year month = Inr idx"
  from assms pick obtain k where k: "scan_dates fmt (zone_of ch) target (timestamps ch) 0 = Inr k"
    and idx: "idx = (if k = - 1 then 0 else nat k)"
    by (auto simp: pickStartIndex_def split: sum.splits)
  from scan_dates_result [OF k]
  show "if \<exists>i<length (timestamps ch). on_or_after fmt ch target i
          then idx < length (timestamps ch) \<and> on_or_after fmt ch target idx \<and>
               (\<forall>j<idx. \<not> on_or_after fmt ch target j)
          else idx = 0"
  proof (elim disjE conjE exE)
    assume "k = - 1"
      and "\<forall>j<length (timestamps ch). \<exists>ymd. localYMD fmt (timestamps ch ! j) (zone_of ch) = Inr ymd \<and> ymd < target"
    then show ?thesis using idx by (fastforce simp: on_or_after_def)
  next
    fix j ymd
    assume j: "j < length (timestamps ch)" "k = int (0 + j)"
      "localYMD fmt (timestamps ch ! j) (zone_of ch) = Inr ymd" "target \<le> ymd"
      and before: "\<forall>j'<j. \<exists>y. localYMD fmt (timestamps ch ! j') (zone_of ch) = Inr y \<and> y < target"
    have "idx = j" using idx j(2) by simp
    moreover have "on_or_after fmt ch target j" using j by (simp add: on_or_after_def)
    moreover have "\<forall>j'<j. \<not> on_or_after fmt ch target j'"
      using before by (fastforce simp: on_or_after_def)
    ultimately show ?thesis using j(1) by auto
  qed
  let ?p = "gap_fill (field_of mode ch) idx"
  let ?q = "gap_fill (other_field mode ch) idx"
  note res = resolve_on_at [OF pick, of mode]
  have "candidate_at (field_of mode ch) idx ?p" by (rule candidate_at_gap_fill)
  moreover have "candidate_at (other_field mode ch) idx ?q" by (rule candidate_at_gap_fill)
  moreover have "\<not> positive ?p \<and> \<not> positive ?q \<longrightarrow>
      resolve_on fmt ch anchor mode mentionTs year month = Inl BadStartPrices"
    by (simp add: res Let_def)
  moreover have "(positive ?p \<or> positive ?q) \<and>
      \<not> positive (lastPrice ch) \<and> \<not> positive (lastClose ch) \<longrightarrow>
      resolve_on fmt ch anchor mode mentionTs year month = Inl BadLatestPrice"
    by (auto simp: res Let_def)
  moreover have "positive (lastPrice ch) \<or> positive (lastClose ch) \<longrightarrow>
      (positive ?p \<longrightarrow>
         (\<exists>r. resolve_on fmt ch anchor mode mentionTs year month = Inr r \<and> basis r = ?p)) \<and>
      (\<not> not_null ?p \<and> positive ?q \<longrightarrow>
         (\<exists>r. resolve_on fmt ch anchor mode mentionTs year month = Inr r \<and> basis r = ?q))"
    by (auto simp: res Let_def positive_nullish_or nullish_or_null)
  ultimately show "\<exists>p q. candidate_at (field_of mode ch) idx p \<and>
                   candidate_at (other_field mode ch) idx q \<and>
               (\<not> positive p \<and> \<not> positive q \<longrightarrow>
                  resolve_on fmt ch anchor mode mentionTs year month = Inl BadStartPrices) \<and>
               ((positive p \<or> positive q) \<and>
                \<not> positive (lastPrice ch) \<and> \<not> positive (lastClose ch) \<longrightarrow>
                  resolve_on fmt ch anchor mode mentionTs year month = Inl BadLatestPrice) \<and>
               (positive (lastPrice ch) \<or> positive (lastClose ch) \<longrightarrow>
                  (positive p \<longrightarrow>
                     (\<exists>r. resolve_on fmt ch anchor mode mentionTs year month = Inr r \<and>
                          basis r = p)) \<and>
                  (\<not> not_null p \<and> positive q \<longrightarrow>
                     (\<exists>r. resolve_on fmt ch anchor mode mentionTs year month = Inr r \<and>
                          basis r = q)))"
    by blast
qed

theorem basis_index_and_value_witness:
  "pickStartIndex utc_format march_chart ''mention'' (Fin 1709380800000) (Fin 2024) (Fin 3) = Inr 1 \<and>
   on_or_after utc_format march_chart ''2024-03-02'' 1 \<and>
   (\<exists>r. resolve_on utc_format march_chart ''mention'' ''oc'' (Fin 1709380800000) (Fin 2024) (Fin 3)
          = Inr r \<and> basis r = Number (Fin 12)) \<and>
   field_of ''oc'' march_chart ! 2 = Number (Fin 12)"
proof -
  have h1: "targetYMD utc_format march_chart ''mention'' (Fin 1709380800000) (Fin 2024) (Fin 3)
      = Inr ''2024-03-02''" by code_simp
  note main = basis_index_and_value [OF h1, of "''oc''"]
  have ts: "timestamps march_chart = [Fin 1709303400000, Fin 1709562600000, Fin 1709649000000]"
    by (simp add: march_chart_def)
  have d1: "localYMD utc_format (Fin 1709303400000) (zone_of march_chart) = Inr ''2024-03-01''"
    by code_simp
  have d2: "localYMD utc_format (Fin 1709562600000) (zone_of march_chart) = Inr ''2024-03-04''"
    by code_simp
  have d3: "localYMD utc_format (Fin 1709649000000) (zone_of march_chart) = Inr ''2024-03-05''"
    by code_simp
  have "\<forall>t\<in>set (timestamps march_chart). \<exists>ymd. localYMD utc_format t (zone_of march_chart) = Inr ymd"
    unfolding ts using d1 d2 d3 by simp
  with main obtain idx where
    idx: "pickStartIndex utc_format march_chart ''mention'' (Fin 1709380800000) (Fin 2024) (Fin 3) = Inr idx"
    by blast
  have "pickStartIndex utc_format march_chart ''mention'' (Fin 1709380800000) (Fin 2024) (Fin 3) = Inr 1"
    by code_simp
  with idx have one: "idx = 1" by simp
  have ex: "\<exists>i<length (timestamps march_chart). on_or_after utc_format march_chart ''2024-03-02'' i"
  proof (intro exI conjI)
    show "1 < length (timestamps march_chart)" by code_simp
    show "on_or_after utc_format march_chart ''2024-03-02'' 1" by code_simp
  qed
  from main idx ex have at: "on_or_after utc_format march_chart ''2024-03-02'' idx" by auto
  from main idx obtain p q where p: "candidate_at (field_of ''oc'' march_chart) idx p"
    and ret: "positive (lastPrice march_chart) \<or> positive (lastClose march_chart) \<longrightarrow>
      (positive p \<longrightarrow>
         (\<exists>r. resolve_on utc_format march_chart ''mention'' ''oc'' (Fin 1709380800000) (Fin 2024) (Fin 3)
              = Inr r \<and> basis r = p))"
    by blast
  have "candidate_at (field_of ''oc'' march_chart) idx (gap_fill (field_of ''oc'' march_chart) idx)"
    by (rule candidate_at_gap_fill)
  with p have pg: "p = gap_fill (field_of ''oc'' march_chart) idx" by (rule candidate_at_unique)
  have g: "gap_fill (field_of ''oc'' march_chart) 1 = Number (Fin 12)" by code_simp
  have pv: "p = Number (Fin 12)" using pg g unfolding one by simp
  have "positive (lastPrice march_chart)" by code_simp
  moreover have "positive (Number (Fin 12))" by code_simp
  ultimately have "\<exists>r. resolve_on utc_format march_chart ''mention'' ''oc'' (Fin 1709380800000) (Fin 2024) (Fin 3)
              = Inr r \<and> basis r = Number (Fin 12)"
    using ret unfolding pv by blast
  moreover have "field_of ''oc'' march_chart ! 2 = Number (Fin 12)" by code_simp
  ultimately show ?thesis using idx at unfolding one by simp
qed

subsection \<open>Failures of single symbols\<close>

text \<open>
  C4, as stated for every batch, fails for a batch longer than \<open>limitTickers\<close>: only
  the first \<open>limitTickers\<close> items are resolved at all. With a limit of one ticker and
  three items of which exactly the first fails, \<open>computeGainers\<close> returns the empty
  sequence, of length 0 and not 2.
\<close>

theorem truncated_batch_counterexample:
  "computeGainers utc_format first_fails [item_xyz, item_abc, item_def] one_ticker (Fin 2024) (Fin 3) [] \<and>
   failed utc_format first_fails [item_xyz, item_abc, item_def] one_ticker (Fin 2024) (Fin 3) 0 \<and>
   \<not> failed utc_format first_fails [item_xyz, item_abc, item_def] one_ticker (Fin 2024) (Fin 3) 1 \<and>
   \<not> failed utc_format first_fails [item_xyz, item_abc, item_def] one_ticker (Fin 2024) (Fin 3) 2 \<and>
   length [item_xyz, item_abc, item_def] - 1 = 2"
proof -
  have "ranked_gains utc_format first_fails [item_xyz, item_abc, item_def] one_ticker (Fin 2024) (Fin 3) = []"
    by code_simp
  then have "computeGainers utc_format first_fails [item_xyz, item_abc, item_def] one_ticker
      (Fin 2024) (Fin 3) []"
    by (simp add: computeGainers_iff)
  moreover have
    "failed utc_format first_fails [item_xyz, item_abc, item_def] one_ticker (Fin 2024) (Fin 3) 0"
    "\<not> failed utc_format first_fails [item_xyz, item_abc, item_def] one_ticker (Fin 2024) (Fin 3) 1"
    "\<not> failed utc_format first_fails [item_xyz, item_abc, item_def] one_ticker (Fin 2024) (Fin 3) 2"
    by code_simp+
  ultimately show ?thesis by simp
qed

text \<open>
  C4, amended. \<open>computeGainers\<close> never raises because of a symbol's failure and
  always returns: under every order in which the workers settle it returns a sequence;
  for the empty input that sequence is empty; for every batch of at most
  \<open>limitTickers\<close> items (50 when the option is missing or not positive) in which
  exactly one item's resolver fails and all others succeed, the returned sequence has
  the length of the input minus one; and the returned sequence is sorted descending by
  \<open>pct\<close> whenever no \<open>pct\<close> in it is NaN.
\<close>

theorem computeGainers_isolates_failures:
  "(\<exists>out. computeGainers fmt envs items options year month out) \<and>
   (\<forall>out. computeGainers fmt envs items options year month out \<longrightarrow>
      (items = [] \<longrightarrow> out = []) \<and>
      (int (length items) \<le> limit_of options \<and>
       (\<exists>k<length items. failed fmt envs items options year month k \<and>
          (\<forall>j<length items. j \<noteq> k \<longrightarrow> \<not> failed fmt envs items options year month j))
       \<longrightarrow> length out = length items - 1) \<and>
      ((\<forall>g\<in>set out. pct g \<noteq> NaN) \<longrightarrow> sorted_wrt (\<lambda>a b. js_le (pct b) (pct a)) out))"
proof (intro conjI allI impI)
  show "\<exists>out. computeGainers fmt envs items options year month out"
    by (simp add: computeGainers_iff)
next
  fix out
  assume run: "computeGainers fmt envs items options year month out"
  then have out: "out = ranked_gains fmt envs items options year month"
    by (simp add: computeGainers_iff)
  show "out = []" if "items = []"
    using that out by (simp add: ranked_gains_def)
  show "length out = length items - 1"
    if "int (length items) \<le> limit_of options \<and>
       (\<exists>k<length items. failed fmt envs items options year month k \<and>
          (\<forall>j<length items. j \<noteq> k \<longrightarrow> \<not> failed fmt envs items options year month j))"
  proof -
    from that obtain k where k: "k < length items" "failed fmt envs items options year month k"
      "\<forall>j<length items. j \<noteq> k \<longrightarrow> \<not> failed fmt envs items options year month j"
      by blast
    have "length out =
        length (filter (\<lambda>k. \<not> failed fmt envs items options year month k) [0..<length items])"
      unfolding out using that by (intro ranked_gains_length) simp
    also have "\<dots> = length items - 1" using k by (rule one_failure_count)
    finally show ?thesis .
  qed
  show "sorted_wrt (\<lambda>a b. js_le (pct b) (pct a)) out" if nan: "\<forall>g\<in>set out. pct g \<noteq> NaN"
  proof (cases "items = []")
    case True
    then show ?thesis using out by (simp add: ranked_gains_def)
  next
    case False
    let ?batch = "take (nat (limit_of options)) items"
    let ?rs = "filter_Boolean
        (map (settled (gain_worker fmt envs ?batch options year month)) [0..<length ?batch])"
    have o: "out = js_sort by_pct ?rs" using out False by (simp add: ranked_gains_def Let_def)
    then have "\<forall>g\<in>set ?rs. pct g \<noteq> NaN" using nan by (simp add: set_js_sort)
    then show ?thesis unfolding o by (rule sorted_js_sort_by_pct)
  qed
qed

theorem computeGainers_isolates_failures_witness:
  "\<exists>out. computeGainers utc_format second_fails [item_xyz, item_abc] default_opts (Fin 2024) (Fin 3) out \<and>
     length out = 1 \<and> map pct out = [Fin 50] \<and>
     sorted_wrt (\<lambda>a b. js_le (pct b) (pct a)) out"
proof -
  let ?items = "[item_xyz, item_abc]"
  note main = computeGainers_isolates_failures
    [of utc_format second_fails ?items default_opts "Fin 2024" "Fin 3"]
  from main obtain out
    where run: "computeGainers utc_format second_fails ?items default_opts (Fin 2024) (Fin 3) out"
    by blast
  then have out: "out = ranked_gains utc_format second_fails ?items default_opts (Fin 2024) (Fin 3)"
    by (simp add: computeGainers_iff)
  have small: "int (length ?items) \<le> limit_of default_opts" by code_simp
  have f1: "failed utc_format second_fails ?items default_opts (Fin 2024) (Fin 3) 1" by code_simp
  have f0: "\<not> failed utc_format second_fails ?items default_opts (Fin 2024) (Fin 3) 0" by code_simp
  have one: "\<exists>k<length ?items. failed utc_format second_fails ?items default_opts (Fin 2024) (Fin 3) k \<and>
      (\<forall>j<length ?items. j \<noteq> k \<longrightarrow> \<not> failed utc_format second_fails ?items default_opts (Fin 2024) (Fin 3) j)"
  proof (intro exI [of _ 1] conjI allI impI)
    show "1 < length ?items" by simp
    show "failed utc_format second_fails ?items default_opts (Fin 2024) (Fin 3) 1" by (rule f1)
    fix j assume "j < length ?items" "j \<noteq> 1"
    then have "j = 0" by simp
    then show "\<not> failed utc_format second_fails ?items default_opts (Fin 2024) (Fin 3) j"
      using f0 by simp
  qed
  have pcts: "map pct (ranked_gains utc_format second_fails ?items default_opts (Fin 2024) (Fin 3)) = [Fin 50]"
    by code_simp
  then have nan: "\<forall>g\<in>set out. pct g \<noteq> NaN"
    unfolding out [symmetric] by (metis (no_types, lifting) jsnum.distinct(3) list.set_map
        image_iff list.simps(15) empty_set singletonD insertE empty_iff)
  from main run small one have "length out = length ?items - 1" by blast
  moreover from main run nan have "sorted_wrt (\<lambda>a b. js_le (pct b) (pct a)) out" by blast
  ultimately show ?thesis using run pcts out by auto
qed

end
